theory Spec2Isabelle
  imports Main
begin

section \<open>Paths, supervisor status and the process state\<close>

text \<open>
  The source is \<^verbatim>\<open>src/pgctl/service.py\<close>. Its paths are \<^verbatim>\<open>py.path.local\<close> objects:
  absolute, normalised paths. They are modelled by their list of components below the
  root, so that \<^verbatim>\<open>join\<close>, \<^verbatim>\<open>dirpath\<close> and \<^verbatim>\<open>basename\<close> are list operations.
\<close>

type_synonym localpath = "string list"

definition join :: "localpath \<Rightarrow> string \<Rightarrow> localpath" where
  "join p n = p @ [n]"

definition dirpath :: "localpath \<Rightarrow> localpath" where
  "dirpath p = butlast p"

definition basename :: "localpath \<Rightarrow> string" where
  "basename p = (if p = [] then [] else last p)"

fun strpath :: "localpath \<Rightarrow> string" where
  "strpath [] = ''/''"
| "strpath (c # cs) = concat (map (\<lambda>x. CHR ''/'' # x) (c # cs))"

text \<open>
  \<^verbatim>\<open>class Service(namedtuple('Service', ['path', 'scratch_dir', 'default_timeout']))\<close>.
  The timeout properties read floating point numbers from files of the service
  directory; nothing below depends on them and they are left out.
\<close>

record Service =
  path :: localpath
  scratch_dir :: localpath
  default_timeout :: int

text \<open>
  Modelled from the spec: \<^verbatim>\<open>daemontools.SvStat\<close> is not among the sources. The spec
  gives a status as \<open>{state, process: optional sub-state, exitcode: optional integer,
  seconds}\<close>, the supervisor never reporting \<open>ready\<close> itself, and names the state of a
  service without supervisor \<open>unsupervised\<close>. States are the strings the source compares
  with (\<^verbatim>\<open>'up'\<close>, \<^verbatim>\<open>'ready'\<close>, \<^verbatim>\<open>'starting'\<close>).
\<close>

record SvStat =
  state :: string
  process :: "string option"
  exitcode :: "int option"
  seconds :: "int option"

definition UNSUPERVISED :: string where
  "UNSUPERVISED = ''unsupervised''"

datatype errno = ENOENT | EEXIST | EISDIR | ENOTDIR | EBADF | ELOOP

datatype error =
    NoSuchService string
  | NotReady SvStat
  | Locked
  | Impossible
  | OSError errno
  | ValueError
  | CalledProcessError

text \<open>
  The file system is a flat table from paths to nodes. Symbolic links are entries of
  their own. The tests \<open>exists\<close>, \<open>is_dir\<close> and \<open>is_file\<close> look at the entry itself,
  where \<^verbatim>\<open>py.path\<close>'s \<^verbatim>\<open>exists()\<close> and \<^verbatim>\<open>check()\<close> follow a link to what it points to:
  the two agree on every entry that is not a link. A property below whose hypotheses
  an entry that is a link could meet says with \<open>is_link\<close> that the entry is none.
\<close>

datatype node = File string | Dir | Symlink string

type_synonym filesystem = "localpath \<Rightarrow> node option"

definition exists :: "filesystem \<Rightarrow> localpath \<Rightarrow> bool" where
  "exists f p = (f p \<noteq> None)"

definition is_dir :: "filesystem \<Rightarrow> localpath \<Rightarrow> bool" where
  "is_dir f p = (f p = Some Dir)"

definition is_file :: "filesystem \<Rightarrow> localpath \<Rightarrow> bool" where
  "is_file f p = (case f p of Some (File c) \<Rightarrow> True | _ \<Rightarrow> False)"

definition is_link :: "filesystem \<Rightarrow> localpath \<Rightarrow> bool" where
  "is_link f p = (case f p of Some (Symlink t) \<Rightarrow> True | _ \<Rightarrow> False)"

text \<open>
  What the code does to the outside world, in the order it does it: queries and
  directives to the supervision daemon, lock acquisition attempts, descriptors closed,
  processes launched. \<^verbatim>\<open>debug\<close> and \<^verbatim>\<open>trace\<close> only write diagnostics and are left out.
\<close>

datatype event =
    SvstatQuery localpath string
  | SvokProbe string
  | SvcDirective "string list"
  | FlockAttempt string
  | CloseFd int
  | ShowRunaway string
  | Popen "string list" int "string \<Rightarrow> string option"
  | Exec "string list" "string \<Rightarrow> string option"

text \<open>
  The state one invocation runs in: the process environment (\<^verbatim>\<open>os.environ\<close>), the file
  system, the working directory, the descriptors the process has open and the advisory
  locks held through them, and the collaborators the code only asks: the supervisor's
  status and liveness answers, and whether another process holds the lock of a path at
  the n-th acquisition attempt.
\<close>

record world =
  environ :: "string \<Rightarrow> string option"
  fs :: filesystem
  cwd :: localpath
  open_fds :: "int list"
  flocks :: "int \<Rightarrow> string option"
  held_elsewhere :: "nat \<Rightarrow> string \<Rightarrow> bool"
  flock_attempts :: nat
  supervisor_status :: "localpath \<Rightarrow> SvStat"
  supervisor_alive :: "string \<Rightarrow> bool"
  trace :: "event list"

type_synonym 'a action = "world \<Rightarrow> (error + 'a) \<times> world"

definition emit :: "event \<Rightarrow> world \<Rightarrow> world" where
  "emit e w = w\<lparr>trace := trace w @ [e]\<rparr>"

section \<open>Derived paths of a service\<close>

definition name :: "Service \<Rightarrow> string" where
  "name s = basename (path s)"

definition ready_script :: "Service \<Rightarrow> localpath" where
  "ready_script s = join (path s) ''ready''"

definition notification_fd :: "Service \<Rightarrow> localpath" where
  "notification_fd s = join (path s) ''notification-fd''"

section \<open>Working directory\<close>

text \<open>
  \<^verbatim>\<open>py.path.local.chdir\<close>: remembers the current directory (\<^verbatim>\<open>None\<close> when it is gone),
  then changes to the path, which fails unless the path is a directory.
\<close>

definition chdir :: "localpath \<Rightarrow> (localpath option) action" where
  "chdir p w =
     (let old = (if is_dir (fs w) (cwd w) then Some (cwd w) else None)
      in if is_dir (fs w) p then (Inr old, w\<lparr>cwd := p\<rparr>)
         else (Inl (OSError ENOENT), w))"

text \<open>
  \<^verbatim>\<open>with p.as_cwd(): body\<close>: the old directory is restored on every exit of the body,
  and a failure while restoring replaces the body's outcome.
\<close>

definition as_cwd :: "localpath \<Rightarrow> 'a action \<Rightarrow> 'a action" where
  "as_cwd p body w =
     (case chdir p w of
        (Inl e, w1) \<Rightarrow> (Inl e, w1)
      | (Inr old, w1) \<Rightarrow>
          (case body w1 of (r, w2) \<Rightarrow>
             (case old of
                None \<Rightarrow> (r, w2)
              | Some p0 \<Rightarrow>
                  (case chdir p0 w2 of
                     (Inl e, w3) \<Rightarrow> (Inl e, w3)
                   | (Inr old', w3) \<Rightarrow> (r, w3)))))"

section \<open>Status classification\<close>

definition assert_exists :: "Service \<Rightarrow> unit action" where
  "assert_exists s w =
     (if \<not> is_dir (fs w) (path s) then (Inl (NoSuchService (name s)), w)
      else (Inr (), w))"

text \<open>
  Modelled from the spec: \<^verbatim>\<open>daemontools.svstat\<close> is not among the sources. The spec
  makes it a read-only status query to the supervision daemon; the service is addressed
  by its name relative to the working directory.
\<close>

definition svstat_query :: "string \<Rightarrow> SvStat action" where
  "svstat_query n w =
     (Inr (supervisor_status w (join (cwd w) n)), emit (SvstatQuery (cwd w) n) w)"

definition svstat :: "Service \<Rightarrow> SvStat action" where
  "svstat s w =
     (case assert_exists s w of
        (Inl e, w1) \<Rightarrow> (Inl e, w1)
      | (Inr u, w1) \<Rightarrow>
          (case as_cwd (dirpath (path s)) (svstat_query (name s)) w1 of
             (Inl e, w2) \<Rightarrow> (Inl e, w2)
           | (Inr result, w2) \<Rightarrow>
               (if \<not> exists (fs w2) (notification_fd s) then
                  (if (state result = ''up'' \<and> process result = None) \<or>
                      (process result = Some ''starting'' \<and> exitcode result = Some 0
                         \<and> seconds result = Some 0)
                   then (Inr (result\<lparr>state := ''ready''\<rparr>), w2)
                   else (Inr result, w2))
                else (Inr result, w2))))"

definition assert_ready :: "Service \<Rightarrow> unit action" where
  "assert_ready s w =
     (case svstat s w of
        (Inl e, w1) \<Rightarrow> (Inl e, w1)
      | (Inr status, w1) \<Rightarrow>
          (if state status \<noteq> ''ready'' then (Inl (NotReady status), w1) else (Inr (), w1)))"

section \<open>Integers as strings\<close>

text \<open>
  \<^verbatim>\<open>str(lock)\<close> and \<^verbatim>\<open>'%i' % n\<close> write an integer in decimal; \<^verbatim>\<open>int(lock)\<close> reads one
  back: surrounding whitespace is dropped, a sign is allowed, and anything but a
  non-empty run of decimal digits is a \<^verbatim>\<open>ValueError\<close> (\<open>None\<close> here). The digit-group
  underscores of later Python versions are not modelled.
\<close>

definition digit_char :: "nat \<Rightarrow> char" where
  "digit_char d = ''0123456789'' ! (d mod 10)"

fun nat_digits :: "nat \<Rightarrow> string" where
  "nat_digits n =
     (if n < 10 then [digit_char n] else nat_digits (n div 10) @ [digit_char (n mod 10)])"

declare nat_digits.simps [simp del]

definition py_str :: "int \<Rightarrow> string" where
  "py_str i = (if i < 0 then CHR ''-'' # nat_digits (nat (- i)) else nat_digits (nat i))"

definition digit_of :: "char \<Rightarrow> nat option" where
  "digit_of c =
     map_of [(CHR ''0'', 0), (CHR ''1'', 1), (CHR ''2'', 2), (CHR ''3'', 3), (CHR ''4'', 4),
             (CHR ''5'', 5), (CHR ''6'', 6), (CHR ''7'', 7), (CHR ''8'', 8), (CHR ''9'', 9)] c"

fun digits_value :: "nat \<Rightarrow> string \<Rightarrow> nat option" where
  "digits_value acc [] = Some acc"
| "digits_value acc (c # cs) =
     (case digit_of c of None \<Rightarrow> None | Some d \<Rightarrow> digits_value (10 * acc + d) cs)"

definition is_space :: "char \<Rightarrow> bool" where
  "is_space c = (c \<in> set [CHR '' '', CHR 0x09, CHR 0x0A, CHR 0x0B, CHR 0x0C, CHR 0x0D])"

definition strip :: "string \<Rightarrow> string" where
  "strip t = rev (dropWhile is_space (rev (dropWhile is_space t)))"

definition unsigned_value :: "string \<Rightarrow> nat option" where
  "unsigned_value t = (if t = [] then None else digits_value 0 t)"

definition py_int :: "string \<Rightarrow> int option" where
  "py_int t =
     (case strip t of
        [] \<Rightarrow> None
      | c # r \<Rightarrow>
          (if c = CHR ''-'' then map_option (\<lambda>n. - int n) (unsigned_value r)
           else if c = CHR ''+'' then map_option int (unsigned_value r)
           else map_option int (unsigned_value (c # r))))"

section \<open>File system operations\<close>

text \<open>
  The \<^verbatim>\<open>py.path.local\<close> and \<^verbatim>\<open>ln\<close> operations the source calls, on the flat table.
\<close>

definition is_prefix :: "localpath \<Rightarrow> localpath \<Rightarrow> bool" where
  "is_prefix p q = (take (length p) q = p)"

definition mkdir :: "localpath \<Rightarrow> filesystem \<Rightarrow> error + filesystem" where
  "mkdir p f =
     (if f p \<noteq> None then Inl (OSError EEXIST)
      else (case f (dirpath p) of
              None \<Rightarrow> Inl (OSError ENOENT)
            | Some Dir \<Rightarrow> Inr (f(p \<mapsto> Dir))
            | Some other \<Rightarrow> Inl (OSError ENOTDIR)))"

text \<open>
  \<^verbatim>\<open>_ensuredirs\<close>: the parent first, when it is not a directory, then the path itself.
\<close>

function ensuredirs :: "localpath \<Rightarrow> filesystem \<Rightarrow> error + filesystem" where
  "ensuredirs p f =
     (if dirpath p = p then Inr f
      else (case (if \<not> is_dir f (dirpath p) then ensuredirs (dirpath p) f else Inr f) of
              Inl e \<Rightarrow> Inl e
            | Inr f1 \<Rightarrow> (if \<not> is_dir f1 p then mkdir p f1 else Inr f1)))"
  by pat_completeness auto
termination
proof (relation "measure (\<lambda>(p, f). length p)")
  show "wf (measure (\<lambda>(p, f). length p))" by simp
next
  fix p :: localpath and f :: filesystem
  assume "dirpath p \<noteq> p"
  then have "p \<noteq> []" by (auto simp: dirpath_def)
  then show "((dirpath p, f), (p, f)) \<in> measure (\<lambda>(p, f). length p)"
    by (simp add: dirpath_def)
qed

declare ensuredirs.simps [simp del]

text \<open>
  \<^verbatim>\<open>open(p, 'w')\<close> followed by one write and the close: the file is created or
  truncated and holds the content. Links are not followed here, so an entry that is a
  symbolic link is refused.
\<close>

definition open_write :: "localpath \<Rightarrow> string \<Rightarrow> filesystem \<Rightarrow> error + filesystem" where
  "open_write p content f =
     (case f p of
        Some Dir \<Rightarrow> Inl (OSError EISDIR)
      | Some (Symlink t) \<Rightarrow> Inl (OSError ELOOP)
      | _ \<Rightarrow> (if is_dir f (dirpath p) then Inr (f(p \<mapsto> File content))
              else Inl (OSError ENOENT)))"

text \<open>\<^verbatim>\<open>p.ensure()\<close> without \<^verbatim>\<open>dir=True\<close>: the parents, then an empty file unless it is one.\<close>

definition ensure_file :: "localpath \<Rightarrow> filesystem \<Rightarrow> error + filesystem" where
  "ensure_file p f =
     (case ensuredirs (dirpath p) f of
        Inl e \<Rightarrow> Inl e
      | Inr f1 \<Rightarrow> (if \<not> is_file f1 p then open_write p [] f1 else Inr f1))"

text \<open>\<^verbatim>\<open>p.remove()\<close>: a directory goes with everything below it.\<close>

definition remove :: "localpath \<Rightarrow> filesystem \<Rightarrow> error + filesystem" where
  "remove p f =
     (if is_dir f p then Inr (\<lambda>q. if is_prefix p q then None else f q)
      else if f p \<noteq> None then Inr (f(p := None))
      else Inl (OSError ENOENT))"

text \<open>
  \<^verbatim>\<open>ln -sfn -- TARGET LINK\<close>: when \<^verbatim>\<open>LINK\<close> is a directory itself (a link to one does not
  count, by \<^verbatim>\<open>-n\<close>) the link is made inside it under the target's name; an existing
  destination is replaced unless it is a directory. A failing \<^verbatim>\<open>ln\<close> makes
  \<^verbatim>\<open>check_call\<close> raise.
\<close>

definition ln_sfn :: "localpath \<Rightarrow> localpath \<Rightarrow> filesystem \<Rightarrow> error + filesystem" where
  "ln_sfn target link f =
     (let dest = (if is_dir f link then join link (basename target) else link)
      in if is_dir f dest \<or> \<not> is_dir f (dirpath dest) then Inl CalledProcessError
         else Inr (f(dest \<mapsto> Symlink (strpath target))))"

definition fs_op :: "(filesystem \<Rightarrow> error + filesystem) \<Rightarrow> unit action" where
  "fs_op g w = (case g (fs w) of Inl e \<Rightarrow> (Inl e, w) | Inr f1 \<Rightarrow> (Inr (), w\<lparr>fs := f1\<rparr>))"

definition and_then :: "'a action \<Rightarrow> ('a \<Rightarrow> 'b action) \<Rightarrow> 'b action" where
  "and_then m k w = (case m w of (Inl e, w1) \<Rightarrow> (Inl e, w1) | (Inr x, w1) \<Rightarrow> k x w1)"

section \<open>Descriptors and locks\<close>

text \<open>The operating system hands out the lowest descriptor that is not open.\<close>

definition lowest_free :: "int list \<Rightarrow> int" where
  "lowest_free fds =
     (case find (\<lambda>n. n \<notin> set fds) (map int [0..<Suc (length fds)]) of
        Some n \<Rightarrow> n
      | None \<Rightarrow> int (length fds))"

text \<open>
  \<^verbatim>\<open>os.close(fd)\<close>: a descriptor that is not open is \<^verbatim>\<open>EBADF\<close>; closing a descriptor gives
  up the lock held through it.
\<close>

definition os_close :: "int \<Rightarrow> unit action" where
  "os_close fd w =
     (let w1 = emit (CloseFd fd) w
      in if fd \<in> set (open_fds w)
         then (Inr (), w1\<lparr>open_fds := removeAll fd (open_fds w), flocks := (flocks w)(fd := None)\<rparr>)
         else (Inl (OSError EBADF), w1))"

text \<open>
  Modelled from the spec: \<^verbatim>\<open>pgctl.flock\<close> is not among the sources. The spec makes the
  lock an exclusive advisory lock keyed by the service directory path and held through
  a descriptor, with at most one holder at a time; the acquisition that
  \<^verbatim>\<open>assert_stopped\<close> relies on does not block and fails with \<^verbatim>\<open>Locked\<close> while the lock is
  held; releasing is closing the handle.
\<close>

definition flock_acquire :: "string \<Rightarrow> int action" where
  "flock_acquire p w =
     (let w1 = emit (FlockAttempt p) (w\<lparr>flock_attempts := Suc (flock_attempts w)\<rparr>)
      in if held_elsewhere w (flock_attempts w) p
            \<or> (\<exists>fd \<in> set (open_fds w). flocks w fd = Some p)
         then (Inl Locked, w1)
         else (let fd = lowest_free (open_fds w)
               in (Inr fd, w1\<lparr>open_fds := fd # open_fds w, flocks := (flocks w)(fd \<mapsto> p)\<rparr>)))"

text \<open>\<^verbatim>\<open>try: ... finally: fin\<close>: a failure of \<open>fin\<close> replaces the outcome \<open>r\<close>.\<close>

definition finally_do :: "error + 'a \<Rightarrow> unit action \<Rightarrow> 'a action" where
  "finally_do r fin w = (case fin w of (Inl e, w1) \<Rightarrow> (Inl e, w1) | (Inr u, w1) \<Rightarrow> (r, w1))"

section \<open>Directory structure\<close>

definition ensure_logs :: "Service \<Rightarrow> unit action" where
  "ensure_logs s = fs_op (ensure_file (join (path s) ''log''))"

text \<open>
  \<^verbatim>\<open>with self.notification_fd.open('w') as f: f.write('%i\n' % f.fileno())\<close>: the
  descriptor is the lowest free one, and it is closed again when the block ends.
\<close>

definition write_notification_fd :: "Service \<Rightarrow> unit action" where
  "write_notification_fd s w =
     fs_op (open_write (notification_fd s) (py_str (lowest_free (open_fds w)) @ [CHR 0x0A])) w"

definition ensure_directory_structure :: "Service \<Rightarrow> unit action" where
  "ensure_directory_structure s =
     and_then (assert_exists s) (\<lambda>u1.
     and_then (ensure_logs s) (\<lambda>u2.
     and_then (fs_op (ensure_file (join (path s) ''nosetsid''))) (\<lambda>u3.
     and_then (\<lambda>w. case fs_op (remove (join (path s) ''down'')) w of
                      (Inl (OSError ENOENT), w1) \<Rightarrow> (Inr (), w1)
                    | r \<Rightarrow> r) (\<lambda>u4.
     and_then (\<lambda>w. if exists (fs w) (ready_script s) then write_notification_fd s w
                    else (Inr (), w)) (\<lambda>u5.
     and_then (fs_op (ensuredirs (join (scratch_dir s) ''supervise''))) (\<lambda>u6.
       fs_op (ln_sfn (join (scratch_dir s) ''supervise'') (join (path s) ''supervise''))))))))"

section \<open>The lock scope\<close>

definition PGCTL_SERVICE_LOCK :: string where
  "PGCTL_SERVICE_LOCK = ''PGCTL_SERVICE_LOCK''"

text \<open>
  How the scope was entered: with the handle inherited from the parent, or with a
  fresh lock, in which case the scope also remembers the directory to go back to.
\<close>

datatype scope = Inherited | Fresh "localpath option"

text \<open>
  \<^verbatim>\<open>flock\<close> is a generator-based context manager. Entering it runs the generator up to
  its \<^verbatim>\<open>yield\<close>; leaving it runs the \<^verbatim>\<open>finally\<close> parts, innermost first. An empty string
  is false in \<^verbatim>\<open>if lock:\<close>, like \<^verbatim>\<open>None\<close>.
\<close>

definition flock_enter :: "Service \<Rightarrow> (int \<times> scope) action" where
  "flock_enter s w =
     (let lock = environ w PGCTL_SERVICE_LOCK;
          w0 = w\<lparr>environ := (environ w)(PGCTL_SERVICE_LOCK := None)\<rparr>
      in if lock \<noteq> None \<and> lock \<noteq> Some [] then
           (case py_int (the lock) of
              None \<Rightarrow> (Inl ValueError, w0)
            | Some h \<Rightarrow> (Inr (h, Inherited), w0))
         else
           (case flock_acquire (strpath (path s)) w0 of
              (Inl e, w1) \<Rightarrow> (Inl e, w1)
            | (Inr fd, w1) \<Rightarrow>
                (case ensure_directory_structure s w1 of
                   (Inl e, w2) \<Rightarrow> finally_do (Inl e) (os_close fd) w2
                 | (Inr u, w2) \<Rightarrow>
                     (case chdir (path s) w2 of
                        (Inl e, w3) \<Rightarrow> finally_do (Inl e) (os_close fd) w3
                      | (Inr old, w3) \<Rightarrow> (Inr (fd, Fresh old), w3)))))"

fun flock_exit :: "scope \<Rightarrow> int \<Rightarrow> error + 'a \<Rightarrow> 'a action" where
  "flock_exit Inherited lock r w = finally_do r (os_close lock) w"
| "flock_exit (Fresh None) lock r w = finally_do r (os_close lock) w"
| "flock_exit (Fresh (Some p0)) lock r w =
     (case finally_do r (and_then (chdir p0) (\<lambda>old. Pair (Inr ()))) w of
        (r1, w1) \<Rightarrow> finally_do r1 (os_close lock) w1)"

text \<open>\<^verbatim>\<open>with self.flock() as lock: body\<close>\<close>

definition with_flock :: "Service \<Rightarrow> (int \<Rightarrow> 'a action) \<Rightarrow> 'a action" where
  "with_flock s body w =
     (case flock_enter s w of
        (Inl e, w1) \<Rightarrow> (Inl e, w1)
      | (Inr (lock, sc), w1) \<Rightarrow> (case body lock w1 of (r, w2) \<Rightarrow> flock_exit sc lock r w2))"

section \<open>Stopping\<close>

text \<open>
  Modelled from the spec: \<^verbatim>\<open>daemontools.svc\<close> is not among the sources. The spec makes
  it the delivery of a directive, addressed by service path, to the supervision daemon.
\<close>

definition svc :: "string list \<Rightarrow> unit action" where
  "svc args w = (Inr (), emit (SvcDirective args) w)"

definition stop :: "Service \<Rightarrow> unit action" where
  "stop s = and_then (assert_exists s) (\<lambda>u. svc [''-dx'', strpath (path s)])"

text \<open>
  Modelled from the spec: \<^verbatim>\<open>functions.show_runaway_processes\<close> is not among the sources.
  The spec makes it a best-effort report of the processes still occupying the service.
\<close>

definition show_runaway_processes :: "string \<Rightarrow> unit action" where
  "show_runaway_processes p w = (Inr (), emit (ShowRunaway p) w)"

text \<open>
  The loop \<^verbatim>\<open>while racelimit > 0: racelimit -= 1; ...\<close> of \<^verbatim>\<open>assert_stopped\<close>, by
  recursion on \<^verbatim>\<open>racelimit\<close>. Only \<^verbatim>\<open>Locked\<close> is caught.
\<close>

fun race_loop :: "nat \<Rightarrow> Service \<Rightarrow> unit action" where
  "race_loop 0 s w = (Inl Impossible, w)"
| "race_loop (Suc racelimit) s w =
     (case with_flock s (\<lambda>lock. Pair (Inr ())) w of
        (Inl Locked, w1) \<Rightarrow>
          (case show_runaway_processes (strpath (path s)) w1 of
             (Inl e, w2) \<Rightarrow> (Inl e, w2)
           | (Inr u, w2) \<Rightarrow> race_loop racelimit s w2)
      | r \<Rightarrow> r)"

definition assert_stopped :: "Service \<Rightarrow> unit action" where
  "assert_stopped s w =
     (case svstat s w of
        (Inl e, w1) \<Rightarrow> (Inl e, w1)
      | (Inr status, w1) \<Rightarrow>
          (if state status \<noteq> UNSUPERVISED then (Inl (NotReady status), w1)
           else race_loop 10 s w1))"

section \<open>Launching the supervisor\<close>

definition supervise_env :: "Service \<Rightarrow> world \<Rightarrow> int \<Rightarrow> bool \<Rightarrow> (string \<Rightarrow> string option)" where
  "supervise_env s w lock debug =
     (let env = (environ w)(''PGCTL_SCRATCH'' \<mapsto> strpath (scratch_dir s),
                            ''PGCTL_SERVICE'' \<mapsto> strpath (path s),
                            ''PGCTL_SERVICE_LOCK'' \<mapsto> py_str lock)
      in if debug then env(''PGCTL_DEBUG'' \<mapsto> ''true'') else env(''PGCTL_DEBUG'' := None))"

text \<open>
  Modelled from the spec: \<^verbatim>\<open>daemontools.svok\<close> is not among the sources. The spec makes
  it a cheap probe without side effect: true if a live supervisor answers for the path.
\<close>

definition svok :: "string \<Rightarrow> world \<Rightarrow> bool \<times> world" where
  "svok p w = (supervisor_alive w p, emit (SvokProbe p) w)"

definition idempotent_supervise :: "(Service \<Rightarrow> unit action) \<Rightarrow> Service \<Rightarrow> unit action" where
  "idempotent_supervise wrapped s w =
     (case svok (strpath (path s)) w of
        (alive, w1) \<Rightarrow> (if alive then (Inr (), w1) else wrapped s w1))"

text \<open>
  \<^verbatim>\<open>open(p, 'a')\<close>: the file is created when missing, and the descriptor stays open.
  The null device opened for the child's standard input is left out.
  Modelled from the spec: \<^verbatim>\<open>daemontools.prepend_timestamps_to\<close> is not among the
  sources; the spec makes it a passthrough sink, so the log keeps its descriptor.
\<close>

definition open_append :: "localpath \<Rightarrow> int action" where
  "open_append p w =
     (case fs w p of
        Some Dir \<Rightarrow> (Inl (OSError EISDIR), w)
      | Some (Symlink t) \<Rightarrow> (Inl (OSError ELOOP), w)
      | Some (File c) \<Rightarrow>
          (let fd = lowest_free (open_fds w) in (Inr fd, w\<lparr>open_fds := fd # open_fds w\<rparr>))
      | None \<Rightarrow>
          (if is_dir (fs w) (dirpath p)
           then (let fd = lowest_free (open_fds w)
                 in (Inr fd, w\<lparr>fs := (fs w)(p \<mapsto> File []), open_fds := fd # open_fds w\<rparr>))
           else (Inl (OSError ENOENT), w)))"

definition close_file :: "int \<Rightarrow> unit action" where
  "close_file fd w = (Inr (), w\<lparr>open_fds := removeAll fd (open_fds w)\<rparr>)"

definition background_wrapped :: "Service \<Rightarrow> unit action" where
  "background_wrapped s =
     with_flock s (\<lambda>lock.
       and_then (open_append (join (path s) ''log'')) (\<lambda>log w.
         close_file log
           (emit (Popen [''s6-supervise'', strpath (path s)] log
                    (supervise_env s w lock False)) w)))"

definition background :: "Service \<Rightarrow> unit action" where
  "background = idempotent_supervise background_wrapped"

text \<open>
  \<^verbatim>\<open>exec_\<close> replaces the process image and never returns: the run ends inside the lock
  scope, which is never left.
\<close>

definition foreground_wrapped :: "Service \<Rightarrow> unit action" where
  "foreground_wrapped s w =
     (case flock_enter s w of
        (Inl e, w1) \<Rightarrow> (Inl e, w1)
      | (Inr (lock, sc), w1) \<Rightarrow>
          (Inr (), emit (Exec [''s6-supervise'', strpath (path s)]
                          (supervise_env s w1 lock True)) w1))"

definition foreground :: "Service \<Rightarrow> unit action" where
  "foreground = idempotent_supervise foreground_wrapped"

definition start :: "Service \<Rightarrow> unit action" where
  "start s = and_then (background s) (\<lambda>u. svc [''-u'', strpath (path s)])"

section \<open>Proof notions\<close>

text \<open>
  An action that never raises \<^verbatim>\<open>Locked\<close> and changes nothing but the file system.
\<close>

definition fs_action :: "'a action \<Rightarrow> bool" where
  "fs_action A = (\<forall>w. fst (A w) \<noteq> Inl Locked \<and> (\<exists>f. snd (A w) = w\<lparr>fs := f\<rparr>))"

text \<open>
  The stages of entering the lock scope without an inherited handle: the entry popped
  from the environment, the acquisition attempted, the lock found busy or acquired.
\<close>

definition popped :: "world \<Rightarrow> world" where
  "popped w = w\<lparr>environ := (environ w)(PGCTL_SERVICE_LOCK := None)\<rparr>"

definition attempted :: "Service \<Rightarrow> world \<Rightarrow> world" where
  "attempted s w = (popped w)\<lparr>flock_attempts := Suc (flock_attempts w),
      trace := trace w @ [FlockAttempt (strpath (path s))]\<rparr>"

definition busy :: "Service \<Rightarrow> world \<Rightarrow> bool" where
  "busy s w = (held_elsewhere w (flock_attempts w) (strpath (path s))
      \<or> (\<exists>fd \<in> set (open_fds w). flocks w fd = Some (strpath (path s))))"

definition acquired :: "Service \<Rightarrow> world \<Rightarrow> world" where
  "acquired s w = (attempted s w)\<lparr>open_fds := lowest_free (open_fds w) # open_fds w,
      flocks := (flocks w)(lowest_free (open_fds w) \<mapsto> strpath (path s))\<rparr>"

text \<open>
  The events of a retry of \<^verbatim>\<open>assert_stopped\<close>: a lock acquisition attempt, the close of
  the handle when the scope is left, the report of runaway processes.
\<close>

fun is_retry_event :: "event \<Rightarrow> bool" where
  "is_retry_event (FlockAttempt p) = True"
| "is_retry_event (CloseFd fd) = True"
| "is_retry_event (ShowRunaway p) = True"
| "is_retry_event e = False"

section \<open>Example services and worlds\<close>

definition example_service :: Service where
  "example_service = \<lparr>path = [''svc''], scratch_dir = [''scratch''], default_timeout = 2\<rparr>"

definition nested_scratch_service :: Service where
  "nested_scratch_service =
     \<lparr>path = [''svc''], scratch_dir = [''svc'', ''ready''], default_timeout = 2\<rparr>"

definition status_of :: "string \<Rightarrow> string option \<Rightarrow> int option \<Rightarrow> int option \<Rightarrow> SvStat" where
  "status_of st pr ex se = \<lparr>state = st, process = pr, exitcode = ex, seconds = se\<rparr>"

text \<open>
  A process with the three standard descriptors, no lock, an empty environment, and a
  file system holding just the service directory, whose supervisor is down.
\<close>

definition example_world :: world where
  "example_world =
     \<lparr>environ = Map.empty,
      fs = [[] \<mapsto> Dir, [''svc''] \<mapsto> Dir],
      cwd = [],
      open_fds = [0, 1, 2],
      flocks = Map.empty,
      held_elsewhere = (\<lambda>n p. False),
      flock_attempts = 0,
      supervisor_status = (\<lambda>p. status_of ''unsupervised'' None None None),
      supervisor_alive = (\<lambda>p. False),
      trace = []\<rparr>"

section \<open>Integers as strings: properties\<close>

lemma digit_cases:
  assumes "d < (10::nat)"
  shows "d = 0 \<or> d = 1 \<or> d = 2 \<or> d = 3 \<or> d = 4 \<or> d = 5 \<or> d = 6 \<or> d = 7 \<or> d = 8 \<or> d = 9"
  using assms by arith

lemma digit_of_digit_char:
  assumes "d < 10"
  shows "digit_of (digit_char d) = Some d"
  using digit_cases [OF assms] by (elim disjE) (simp_all add: digit_char_def digit_of_def)

lemma digit_char_plain:
  assumes "d < 10"
  shows "\<not> is_space (digit_char d)" and "digit_char d \<noteq> CHR ''-''" and "digit_char d \<noteq> CHR ''+''"
  using digit_cases [OF assms]
  by (elim disjE; simp add: digit_char_def is_space_def)+

lemma digits_value_append:
  "digits_value acc (xs @ ys) =
     (case digits_value acc xs of None \<Rightarrow> None | Some a \<Rightarrow> digits_value a ys)"
  by (induction xs arbitrary: acc) (auto split: option.splits)

lemma nat_digits_shape:
  "nat_digits n \<noteq> [] \<and> (\<exists>d<10. hd (nat_digits n) = digit_char d)
     \<and> (\<exists>d<10. last (nat_digits n) = digit_char d)"
proof (induction n rule: nat_digits.induct)
  case (1 n)
  show ?case
  proof (cases "n < 10")
    case True
    then show ?thesis by (subst (1 2 3) nat_digits.simps) auto
  next
    case False
    from "1.IH" [OF False] have ih: "nat_digits (n div 10) \<noteq> []"
      "\<exists>d<10. hd (nat_digits (n div 10)) = digit_char d" by simp_all
    have eq: "nat_digits n = nat_digits (n div 10) @ [digit_char (n mod 10)]"
      using False by (subst nat_digits.simps) simp
    have "\<exists>d<10. digit_char (n mod 10) = digit_char d"
      by (rule exI [of _ "n mod 10"]) simp
    then show ?thesis using ih unfolding eq by auto
  qed
qed

lemma digits_value_nat_digits: "digits_value 0 (nat_digits n) = Some n"
proof (induction n rule: nat_digits.induct)
  case (1 n)
  show ?case
  proof (cases "n < 10")
    case True
    then show ?thesis by (subst nat_digits.simps) (simp add: digit_of_digit_char)
  next
    case False
    have eq: "nat_digits n = nat_digits (n div 10) @ [digit_char (n mod 10)]"
      using False by (subst nat_digits.simps) simp
    show ?thesis
      unfolding eq using "1.IH" [OF False]
      by (simp add: digits_value_append digit_of_digit_char)
  qed
qed

lemma strip_plain:
  assumes "t \<noteq> []" and "\<not> is_space (hd t)" and "\<not> is_space (last t)"
  shows "strip t = t"
proof -
  have "dropWhile is_space t = t" using assms(1,2) by (cases t) auto
  moreover have "dropWhile is_space (rev t) = rev t"
    using assms(1,3) by (cases "rev t") (auto simp: hd_rev)
  ultimately show ?thesis by (simp add: strip_def)
qed

text \<open>The decimal string of a handle reads back as the handle.\<close>

lemma py_int_py_str: "py_int (py_str i) = Some i" and py_str_not_empty: "py_str i \<noteq> []"
proof -
  show "py_str i \<noteq> []" using nat_digits_shape by (simp add: py_str_def)
  show "py_int (py_str i) = Some i"
  proof (cases "i < 0")
    case False
    let ?t = "nat_digits (nat i)"
    from nat_digits_shape [of "nat i"] obtain d e where
      ne: "?t \<noteq> []" and d: "d < 10" "hd ?t = digit_char d" and e: "e < 10" "last ?t = digit_char e"
      by blast
    have "strip ?t = ?t"
      using ne d e by (intro strip_plain) (simp_all add: digit_char_plain)
    moreover obtain c r where cr: "?t = c # r" using ne by (cases ?t) auto
    moreover have "c \<noteq> CHR ''-''" "c \<noteq> CHR ''+''"
      using cr d digit_char_plain [of d] by auto
    ultimately show ?thesis
      using False digits_value_nat_digits [of "nat i"]
      by (simp add: py_int_def py_str_def unsigned_value_def)
  next
    case True
    let ?t = "nat_digits (nat (- i))"
    from nat_digits_shape [of "nat (- i)"] obtain e where
      ne: "?t \<noteq> []" and e: "e < 10" "last ?t = digit_char e"
      by blast
    have minus: "\<not> is_space (CHR ''-'')" by (simp add: is_space_def)
    have "\<not> is_space (last ?t)" using e by (simp add: digit_char_plain)
    then have "strip (CHR ''-'' # ?t) = CHR ''-'' # ?t"
      using ne minus by (intro strip_plain) simp_all
    then show ?thesis
      using True ne digits_value_nat_digits [of "nat (- i)"]
      by (simp add: py_int_def py_str_def unsigned_value_def)
  qed
qed

section \<open>Status classification: properties\<close>

lemma svstat_result:
  assumes "is_dir (fs w) (path s)" and "is_dir (fs w) (dirpath (path s))"
  shows "fst (svstat s w) =
     Inr (let raw = supervisor_status w (join (dirpath (path s)) (name s))
          in if \<not> exists (fs w) (notification_fd s) \<and>
               ((state raw = ''up'' \<and> process raw = None) \<or>
                (process raw = Some ''starting'' \<and> exitcode raw = Some 0
                   \<and> seconds raw = Some 0))
             then raw\<lparr>state := ''ready''\<rparr> else raw)"
  using assms
  by (simp add: svstat_def assert_exists_def as_cwd_def chdir_def svstat_query_def
      emit_def Let_def)

lemma svstat_world:
  assumes "is_dir (fs w) (path s)" and "is_dir (fs w) (dirpath (path s))"
  shows "snd (svstat s w) =
     (emit (SvstatQuery (dirpath (path s)) (name s)) w)
       \<lparr>cwd := (if is_dir (fs w) (cwd w) then cwd w else dirpath (path s))\<rparr>"
  using assms
  by (simp add: svstat_def assert_exists_def as_cwd_def chdir_def svstat_query_def
      emit_def Let_def)

lemma svstat_missing:
  assumes "\<not> is_dir (fs w) (path s)"
  shows "svstat s w = (Inl (NoSuchService (name s)), w)"
  using assms by (simp add: svstat_def assert_exists_def)

text \<open>
  C1. For a service directory that exists (the precondition of the status query; in the
  flat table its parent is stated to be a directory too) and holds no
  \<^verbatim>\<open>notification-fd\<close> entry, \<^verbatim>\<open>svstat\<close> returns the raw supervisor status with its state
  replaced by \<^verbatim>\<open>'ready'\<close> exactly when the raw state is \<^verbatim>\<open>'up'\<close> with no sub-process, or
  the sub-process is \<^verbatim>\<open>'starting'\<close> with last exit code 0 and zero seconds in state;
  otherwise it returns the raw status unchanged.
\<close>

theorem svstat_without_notification_fd:
  assumes "is_dir (fs w) (path s)" and "is_dir (fs w) (dirpath (path s))"
    and "\<not> exists (fs w) (notification_fd s)"
  shows "fst (svstat s w) =
     Inr (let raw = supervisor_status w (join (dirpath (path s)) (name s))
          in if (state raw = ''up'' \<and> process raw = None) \<or>
                (process raw = Some ''starting'' \<and> exitcode raw = Some 0
                   \<and> seconds raw = Some 0)
             then raw\<lparr>state := ''ready''\<rparr> else raw)"
  using svstat_result [OF assms(1,2)] assms(3) by (simp add: Let_def)

theorem svstat_without_notification_fd_witness:
  "is_dir (fs (example_world\<lparr>supervisor_status := (\<lambda>p. status_of ''up'' None None None)\<rparr>))
     (path example_service)
   \<and> \<not> exists (fs (example_world\<lparr>supervisor_status := (\<lambda>p. status_of ''up'' None None None)\<rparr>))
       (notification_fd example_service)
   \<and> fst (svstat example_service
        (example_world\<lparr>supervisor_status := (\<lambda>p. status_of ''up'' None None None)\<rparr>))
     = Inr (status_of ''ready'' None None None)
   \<and> fst (svstat example_service
        (example_world\<lparr>supervisor_status := (\<lambda>p. status_of ''up'' (Some ''starting'') (Some 0) (Some 0))\<rparr>))
     = Inr (status_of ''ready'' (Some ''starting'') (Some 0) (Some 0))
   \<and> fst (svstat example_service
        (example_world\<lparr>supervisor_status := (\<lambda>p. status_of ''up'' (Some ''starting'') (Some 1) (Some 0))\<rparr>))
     = Inr (status_of ''up'' (Some ''starting'') (Some 1) (Some 0))"
  using
    svstat_without_notification_fd [of
      "example_world\<lparr>supervisor_status := (\<lambda>p. status_of ''up'' None None None)\<rparr>"
      example_service]
    svstat_without_notification_fd [of
      "example_world\<lparr>supervisor_status := (\<lambda>p. status_of ''up'' (Some ''starting'') (Some 0) (Some 0))\<rparr>"
      example_service]
    svstat_without_notification_fd [of
      "example_world\<lparr>supervisor_status := (\<lambda>p. status_of ''up'' (Some ''starting'') (Some 1) (Some 0))\<rparr>"
      example_service]
  by (simp add: example_world_def example_service_def status_of_def is_dir_def exists_def
      notification_fd_def join_def dirpath_def)

text \<open>
  C2. For a service directory that exists and holds a \<^verbatim>\<open>notification-fd\<close> entry (a file
  or a directory itself, not a link, so that \<^verbatim>\<open>exists()\<close> sees it whatever it points to),
  \<^verbatim>\<open>svstat\<close> returns the raw supervisor status unchanged. In particular the raw status
  \<open>(up, starting, 0, 0)\<close> comes back as it is, its sub-process \<^verbatim>\<open>'starting'\<close> and its
  state not \<^verbatim>\<open>'ready'\<close>: the example after the theorem evaluates this case.
\<close>

theorem svstat_with_notification_fd:
  assumes "is_dir (fs w) (path s)" and "is_dir (fs w) (dirpath (path s))"
    and "exists (fs w) (notification_fd s)"
    and "\<not> is_link (fs w) (notification_fd s)"
  shows "fst (svstat s w) = Inr (supervisor_status w (join (dirpath (path s)) (name s)))"
  using svstat_result [OF assms(1,2)] assms(3) by (simp add: Let_def)

theorem svstat_with_notification_fd_witness:
  "is_dir (fs (example_world
       \<lparr>fs := (fs example_world)([''svc'', ''notification-fd''] \<mapsto> File ''3''),
        supervisor_status := (\<lambda>p. status_of ''up'' (Some ''starting'') (Some 0) (Some 0))\<rparr>))
     (path example_service)
   \<and> exists (fs (example_world
       \<lparr>fs := (fs example_world)([''svc'', ''notification-fd''] \<mapsto> File ''3''),
        supervisor_status := (\<lambda>p. status_of ''up'' (Some ''starting'') (Some 0) (Some 0))\<rparr>))
     (notification_fd example_service)
   \<and> \<not> is_link (fs (example_world
       \<lparr>fs := (fs example_world)([''svc'', ''notification-fd''] \<mapsto> File ''3''),
        supervisor_status := (\<lambda>p. status_of ''up'' (Some ''starting'') (Some 0) (Some 0))\<rparr>))
     (notification_fd example_service)
   \<and> fst (svstat example_service (example_world
       \<lparr>fs := (fs example_world)([''svc'', ''notification-fd''] \<mapsto> File ''3''),
        supervisor_status := (\<lambda>p. status_of ''up'' (Some ''starting'') (Some 0) (Some 0))\<rparr>))
     = Inr \<lparr>state = ''up'', process = Some ''starting'', exitcode = Some 0, seconds = Some 0\<rparr>"
  using
    svstat_with_notification_fd [of
      "example_world
       \<lparr>fs := (fs example_world)([''svc'', ''notification-fd''] \<mapsto> File ''3''),
        supervisor_status := (\<lambda>p. status_of ''up'' (Some ''starting'') (Some 0) (Some 0))\<rparr>"
      example_service]
  by (simp add: example_world_def example_service_def status_of_def is_dir_def exists_def is_link_def
      notification_fd_def join_def dirpath_def)

section \<open>Stopping: properties\<close>

text \<open>
  C6 as stated fails: a service whose directory exists and whose supervisor is down
  (status \<open>unsupervised\<close>) is stopped without any failure, and the directive is sent.
\<close>

theorem stop_unsupervised_counterexample:
  "fst (svstat example_service example_world) = Inr (status_of UNSUPERVISED None None None)
   \<and> fst (stop example_service example_world) = Inr ()
   \<and> trace (snd (stop example_service example_world)) = [SvcDirective [''-dx'', ''/svc'']]"
  by (simp add: svstat_def assert_exists_def as_cwd_def chdir_def svstat_query_def
      emit_def Let_def stop_def and_then_def svc_def example_service_def example_world_def
      is_dir_def exists_def notification_fd_def join_def dirpath_def name_def basename_def
      status_of_def UNSUPERVISED_def)

text \<open>
  C6, amended. \<^verbatim>\<open>stop\<close> first asserts that the service directory exists, failing with
  \<^verbatim>\<open>NoSuchService\<close> otherwise, and only then sends the down-and-exit directive \<^verbatim>\<open>-dx\<close> to
  the supervisor for the service path; it makes no status query. Stated for a service
  path whose entry is not a link, where the entry itself decides whether the directory
  exists.
\<close>

theorem stop_checks_directory_only:
  assumes "\<not> is_link (fs w) (path s)"
  shows "stop s w =
     (if is_dir (fs w) (path s)
      then (Inr (), emit (SvcDirective [''-dx'', strpath (path s)]) w)
      else (Inl (NoSuchService (name s)), w))"
  by (simp add: stop_def and_then_def assert_exists_def svc_def)

theorem stop_checks_directory_only_witness:
  "\<not> is_link (fs example_world) (path example_service)
   \<and> stop example_service example_world =
     (Inr (), emit (SvcDirective [''-dx'', ''/svc'']) example_world)
   \<and> \<not> is_link (fs example_world) (path (example_service\<lparr>path := [''gone'']\<rparr>))
   \<and> stop (example_service\<lparr>path := [''gone'']\<rparr>) example_world =
     (Inl (NoSuchService ''gone''), example_world)"
  using stop_checks_directory_only [where s = example_service and w = example_world]
    stop_checks_directory_only [where s = "example_service\<lparr>path := [''gone'']\<rparr>"
      and w = example_world]
  by (simp add: example_service_def example_world_def is_dir_def is_link_def name_def
      basename_def)

section \<open>Launching the supervisor: properties\<close>

text \<open>
  C7. When a live supervisor answers the probe for the service path, \<^verbatim>\<open>background\<close> and
  \<^verbatim>\<open>foreground\<close> return successfully and the probe is all that happened: no lock
  acquisition is attempted, nothing is launched, and the environment, the file system
  and the descriptors are as before.
\<close>

theorem launch_idempotent:
  assumes "supervisor_alive w (strpath (path s))"
  shows "background s w = (Inr (), emit (SvokProbe (strpath (path s))) w)
       \<and> foreground s w = (Inr (), emit (SvokProbe (strpath (path s))) w)"
  using assms by (simp add: background_def foreground_def idempotent_supervise_def svok_def emit_def)

theorem launch_idempotent_witness:
  "supervisor_alive (example_world\<lparr>supervisor_alive := (\<lambda>p. p = ''/svc'')\<rparr>)
     (strpath (path example_service))
   \<and> background example_service (example_world\<lparr>supervisor_alive := (\<lambda>p. p = ''/svc'')\<rparr>)
     = (Inr (), (example_world\<lparr>supervisor_alive := (\<lambda>p. p = ''/svc'')\<rparr>)\<lparr>trace := [SvokProbe ''/svc'']\<rparr>)
   \<and> foreground example_service (example_world\<lparr>supervisor_alive := (\<lambda>p. p = ''/svc'')\<rparr>)
     = (Inr (), (example_world\<lparr>supervisor_alive := (\<lambda>p. p = ''/svc'')\<rparr>)\<lparr>trace := [SvokProbe ''/svc'']\<rparr>)"
  using launch_idempotent [of "example_world\<lparr>supervisor_alive := (\<lambda>p. p = ''/svc'')\<rparr>" example_service]
  by (simp add: example_service_def example_world_def emit_def)

text \<open>
  C8. For every lock handle and debug flag, the mapping \<^verbatim>\<open>supervise_env\<close> returns sets
  the three entries \<^verbatim>\<open>PGCTL_SCRATCH\<close>, \<^verbatim>\<open>PGCTL_SERVICE\<close> and \<^verbatim>\<open>PGCTL_SERVICE_LOCK\<close> (the
  handle in decimal, which \<^verbatim>\<open>int\<close> reads back as the handle), holds \<^verbatim>\<open>PGCTL_DEBUG\<close> if and only if the flag is true, whatever the
  ambient environment says, and agrees with the ambient environment on every other
  key. The result is a value of its own: the function does not touch \<^verbatim>\<open>os.environ\<close>, and
  nothing can change the mapping afterwards.
\<close>

theorem supervise_env_entries:
  "supervise_env s w lock debug ''PGCTL_SCRATCH'' = Some (strpath (scratch_dir s))
   \<and> supervise_env s w lock debug ''PGCTL_SERVICE'' = Some (strpath (path s))
   \<and> supervise_env s w lock debug ''PGCTL_SERVICE_LOCK'' = Some (py_str lock)
   \<and> py_int (py_str lock) = Some lock
   \<and> supervise_env s w lock debug ''PGCTL_DEBUG'' = (if debug then Some ''true'' else None)
   \<and> (\<forall>k. k \<notin> {''PGCTL_SCRATCH'', ''PGCTL_SERVICE'', ''PGCTL_SERVICE_LOCK'', ''PGCTL_DEBUG''}
          \<longrightarrow> supervise_env s w lock debug k = environ w k)"
  by (simp add: supervise_env_def Let_def py_int_py_str)

theorem supervise_env_entries_witness:
  "supervise_env example_service
      (example_world\<lparr>environ := [''HOME'' \<mapsto> ''/root'', ''PGCTL_DEBUG'' \<mapsto> ''true'']\<rparr>) 3 False
      ''PGCTL_SERVICE_LOCK'' = Some ''3''
   \<and> supervise_env example_service
      (example_world\<lparr>environ := [''HOME'' \<mapsto> ''/root'', ''PGCTL_DEBUG'' \<mapsto> ''true'']\<rparr>) 3 False
      ''PGCTL_DEBUG'' = None
   \<and> ''HOME'' \<notin> {''PGCTL_SCRATCH'', ''PGCTL_SERVICE'', ''PGCTL_SERVICE_LOCK'', ''PGCTL_DEBUG''}
   \<and> supervise_env example_service
      (example_world\<lparr>environ := [''HOME'' \<mapsto> ''/root'', ''PGCTL_DEBUG'' \<mapsto> ''true'']\<rparr>) 3 False
      ''HOME'' = Some ''/root''"
  using supervise_env_entries [of example_service
      "example_world\<lparr>environ := [''HOME'' \<mapsto> ''/root'', ''PGCTL_DEBUG'' \<mapsto> ''true'']\<rparr>" 3 False]
  by (simp add: example_world_def py_str_def nat_digits.simps digit_char_def)

section \<open>Directory structure: what it leaves alone\<close>

lemma fs_actionI:
  assumes "\<And>w. fst (A w) \<noteq> Inl Locked" and "\<And>w. \<exists>f. snd (A w) = w\<lparr>fs := f\<rparr>"
  shows "fs_action A"
  using assms unfolding fs_action_def by blast

lemma fs_actionD:
  assumes "fs_action A" and "A w = (r, w')"
  shows "r \<noteq> Inl Locked" and "w' = w\<lparr>fs := fs w'\<rparr>"
proof -
  from assms show "r \<noteq> Inl Locked" unfolding fs_action_def by (metis fst_conv)
  from assms obtain f where "w' = w\<lparr>fs := f\<rparr>" unfolding fs_action_def by (metis snd_conv)
  then show "w' = w\<lparr>fs := fs w'\<rparr>" by simp
qed

lemma same_world: "\<exists>f. (w::world) = w\<lparr>fs := f\<rparr>"
  by (rule exI [of _ "fs w"]) simp

lemma fs_op_pointwise:
  assumes "\<And>f. g f \<noteq> Inl Locked"
  shows "fst (fs_op g w) \<noteq> Inl Locked" and "\<exists>f. snd (fs_op g w) = w\<lparr>fs := f\<rparr>"
proof -
  show "fst (fs_op g w) \<noteq> Inl Locked"
    using assms [of "fs w"] by (cases "g (fs w)") (auto simp: fs_op_def)
  show "\<exists>f. snd (fs_op g w) = w\<lparr>fs := f\<rparr>"
    by (cases "g (fs w)") (auto simp: fs_op_def same_world)
qed

lemma fs_action_fs_op:
  assumes "\<And>f. g f \<noteq> Inl Locked"
  shows "fs_action (fs_op g)"
  by (rule fs_actionI) (rule fs_op_pointwise [OF assms])+

lemma fs_action_and_then:
  assumes "fs_action A" and "\<And>x. fs_action (B x)"
  shows "fs_action (and_then A B)"
proof (rule fs_actionI)
  fix w
  obtain r w1 where a: "A w = (r, w1)" by (cases "A w")
  note fa = fs_actionD [OF assms(1) a]
  show "fst (and_then A B w) \<noteq> Inl Locked"
  proof (cases r)
    case (Inl e)
    then show ?thesis using a fa by (auto simp: and_then_def)
  next
    case (Inr x)
    obtain r2 w2 where b: "B x w1 = (r2, w2)" by (cases "B x w1")
    from fs_actionD(1) [OF assms(2) b] show ?thesis using Inr a b by (simp add: and_then_def)
  qed
  show "\<exists>f. snd (and_then A B w) = w\<lparr>fs := f\<rparr>"
  proof (cases r)
    case (Inl e)
    have "w1 = w\<lparr>fs := fs w1\<rparr>" by (rule fa(2))
    then show ?thesis using Inl a by (auto simp: and_then_def)
  next
    case (Inr x)
    obtain r2 w2 where b: "B x w1 = (r2, w2)" by (cases "B x w1")
    have "w2 = w1\<lparr>fs := fs w2\<rparr>" by (rule fs_actionD(2) [OF assms(2) b])
    then have "w2 = w\<lparr>fs := fs w1\<rparr>\<lparr>fs := fs w2\<rparr>" using fa(2) by simp
    then have "w2 = w\<lparr>fs := fs w2\<rparr>" by simp
    then show ?thesis using Inr a b by (auto simp: and_then_def)
  qed
qed

lemma mkdir_not_locked: "mkdir p f \<noteq> Inl Locked"
  by (simp add: mkdir_def split: option.splits node.splits)

lemma ensuredirs_not_locked: "ensuredirs p f \<noteq> Inl Locked"
proof (induction p f rule: ensuredirs.induct)
  case (1 p f)
  show ?case
  proof (cases "dirpath p = p")
    case True
    then show ?thesis by (subst ensuredirs.simps) simp
  next
    case False
    show ?thesis
    proof (cases "is_dir f (dirpath p)")
      case True
      with False show ?thesis by (subst ensuredirs.simps) (simp add: mkdir_not_locked)
    next
      case nd: False
      from "1.IH" [OF False nd] have ih: "ensuredirs (dirpath p) f \<noteq> Inl Locked" .
      have "ensuredirs p f =
          (case ensuredirs (dirpath p) f of
             Inl e \<Rightarrow> Inl e
           | Inr f1 \<Rightarrow> (if \<not> is_dir f1 p then mkdir p f1 else Inr f1))"
        using False nd by (subst ensuredirs.simps) simp
      then show ?thesis
        using ih by (auto simp: mkdir_not_locked split: sum.splits)
    qed
  qed
qed

lemma open_write_not_locked: "open_write p c f \<noteq> Inl Locked"
  by (simp add: open_write_def split: option.splits node.splits)

lemma ensure_file_not_locked: "ensure_file p f \<noteq> Inl Locked"
  using ensuredirs_not_locked [of "dirpath p" f]
  by (auto simp: ensure_file_def open_write_not_locked split: sum.splits)

lemma remove_not_locked: "remove p f \<noteq> Inl Locked"
  by (simp add: remove_def)

lemma ln_sfn_not_locked: "ln_sfn t l f \<noteq> Inl Locked"
  by (simp add: ln_sfn_def Let_def)

lemma fs_action_assert_exists: "fs_action (assert_exists s)"
  by (rule fs_actionI) (simp_all add: assert_exists_def same_world)

lemma fs_action_tolerate:
  assumes "fs_action A"
  shows "fs_action (\<lambda>w. case A w of (Inl (OSError ENOENT), w1) \<Rightarrow> (Inr (), w1) | r \<Rightarrow> r)"
proof (rule fs_actionI)
  fix w
  obtain r w1 where a: "A w = (r, w1)" by (cases "A w")
  note fa = fs_actionD [OF assms a]
  show "fst (case A w of (Inl (OSError ENOENT), w1) \<Rightarrow> (Inr (), w1) | r \<Rightarrow> r) \<noteq> Inl Locked"
    using a fa(1) by (auto split: sum.splits error.splits errno.splits)
  have "w1 = w\<lparr>fs := fs w1\<rparr>" by (rule fa(2))
  then have "\<exists>f. w1 = w\<lparr>fs := f\<rparr>" by blast
  then show "\<exists>f. snd (case A w of (Inl (OSError ENOENT), w1) \<Rightarrow> (Inr (), w1) | r \<Rightarrow> r) = w\<lparr>fs := f\<rparr>"
    using a by (auto split: sum.splits error.splits errno.splits)
qed

lemma fs_action_notification:
  "fs_action (\<lambda>w. if exists (fs w) (ready_script s) then write_notification_fd s w else (Inr (), w))"
proof (rule fs_actionI)
  fix w
  show "fst (if exists (fs w) (ready_script s) then write_notification_fd s w else (Inr (), w))
          \<noteq> Inl Locked"
    by (simp add: write_notification_fd_def fs_op_pointwise(1) open_write_not_locked)
  show "\<exists>f. snd (if exists (fs w) (ready_script s) then write_notification_fd s w else (Inr (), w))
          = w\<lparr>fs := f\<rparr>"
    by (simp add: write_notification_fd_def fs_op_pointwise(2) open_write_not_locked same_world)
qed

lemma ensure_directory_structure_fs_action: "fs_action (ensure_directory_structure s)"
  unfolding ensure_directory_structure_def ensure_logs_def
  by (intro fs_action_and_then fs_action_assert_exists fs_action_fs_op fs_action_tolerate
      fs_action_notification ensure_file_not_locked remove_not_locked ensuredirs_not_locked
      ln_sfn_not_locked)

section \<open>The lock scope: properties\<close>

lemma lowest_free_fresh: "lowest_free fds \<notin> set fds"
proof (cases "find (\<lambda>n. n \<notin> set fds) (map int [0..<Suc (length fds)])")
  case (Some n)
  then have "n \<notin> set fds" by (auto simp: find_Some_iff)
  with Some show ?thesis by (simp add: lowest_free_def)
next
  case None
  have all: "int n \<in> set fds" if "n < Suc (length fds)" for n
  proof -
    have "int n \<in> set (map int [0..<Suc (length fds)])"
      using that by (simp del: upt_Suc)
    with None show ?thesis by (metis find_None_iff)
  qed
  have "int ` {0..<Suc (length fds)} \<subseteq> set fds"
    using all by (meson atLeastLessThan_iff image_subsetI)
  then have "card (int ` {0..<Suc (length fds)}) \<le> card (set fds)"
    by (intro card_mono) auto
  moreover have "card (int ` {0..<Suc (length fds)}) = Suc (length fds)"
    by (simp add: card_image)
  moreover have "card (set fds) \<le> length fds" by (rule card_length)
  ultimately show ?thesis by simp
qed

lemma os_close_result:
  "os_close fd w =
     (if fd \<in> set (open_fds w)
      then (Inr (), w\<lparr>open_fds := removeAll fd (open_fds w), flocks := (flocks w)(fd := None),
                      trace := trace w @ [CloseFd fd]\<rparr>)
      else (Inl (OSError EBADF), w\<lparr>trace := trace w @ [CloseFd fd]\<rparr>))"
  by (simp add: os_close_def emit_def Let_def)

lemma flock_enter_inherited:
  assumes "environ w PGCTL_SERVICE_LOCK = Some v" and "v \<noteq> []" and "py_int v = Some h"
  shows "flock_enter s w =
     (Inr (h, Inherited), w\<lparr>environ := (environ w)(PGCTL_SERVICE_LOCK := None)\<rparr>)"
  using assms by (simp add: flock_enter_def Let_def)

text \<open>
  The hand-off end to end: a process started with the environment that
  \<^verbatim>\<open>supervise_env\<close> builds for a handle enters the scope with that handle.
\<close>

lemma flock_enter_after_supervise_env:
  assumes "environ w' = supervise_env s w lock debug"
  shows "flock_enter s2 w' =
     (Inr (lock, Inherited), w'\<lparr>environ := (environ w')(PGCTL_SERVICE_LOCK := None)\<rparr>)"
proof (rule flock_enter_inherited)
  show "environ w' PGCTL_SERVICE_LOCK = Some (py_str lock)"
    using assms by (simp add: supervise_env_def PGCTL_SERVICE_LOCK_def Let_def)
  show "py_str lock \<noteq> []" by (rule py_str_not_empty)
  show "py_int (py_str lock) = Some lock" by (rule py_int_py_str)
qed

lemma flock_enter_busy:
  assumes "environ w PGCTL_SERVICE_LOCK = None \<or> environ w PGCTL_SERVICE_LOCK = Some []"
    and "busy s w"
  shows "flock_enter s w = (Inl Locked, attempted s w)"
  using assms
  by (auto simp: flock_enter_def flock_acquire_def Let_def emit_def busy_def attempted_def popped_def)

lemma flock_enter_free:
  assumes "environ w PGCTL_SERVICE_LOCK = None \<or> environ w PGCTL_SERVICE_LOCK = Some []"
    and "\<not> busy s w"
  shows "flock_enter s w =
     (case ensure_directory_structure s (acquired s w) of
        (Inl e, w2) \<Rightarrow> finally_do (Inl e) (os_close (lowest_free (open_fds w))) w2
      | (Inr u, w2) \<Rightarrow>
          (case chdir (path s) w2 of
             (Inl e, w3) \<Rightarrow> finally_do (Inl e) (os_close (lowest_free (open_fds w))) w3
           | (Inr old, w3) \<Rightarrow> (Inr (lowest_free (open_fds w), Fresh old), w3)))"
  using assms
  by (auto simp: flock_enter_def flock_acquire_def Let_def emit_def busy_def attempted_def
      popped_def acquired_def)

lemma finally_do_close_open:
  assumes "fd \<in> set (open_fds w)"
  shows "finally_do r (os_close fd) w =
     (r, w\<lparr>open_fds := removeAll fd (open_fds w), flocks := (flocks w)(fd := None),
            trace := trace w @ [CloseFd fd]\<rparr>)"
  using assms by (simp add: finally_do_def os_close_result)

lemma flock_enter_fresh_outcome [consumes 1, case_names locked failed entered]:
  assumes env: "environ w PGCTL_SERVICE_LOCK = None \<or> environ w PGCTL_SERVICE_LOCK = Some []"
  obtains
    (locked) "busy s w" and "flock_enter s w = (Inl Locked, attempted s w)"
  | (failed) e f c where "\<not> busy s w" and "e \<noteq> Locked"
      and "flock_enter s w =
        (Inl e, (attempted s w)\<lparr>fs := f, cwd := c,
           flocks := (flocks w)(lowest_free (open_fds w) := None),
           trace := trace w @ [FlockAttempt (strpath (path s)), CloseFd (lowest_free (open_fds w))]\<rparr>)"
  | (entered) f where "\<not> busy s w"
      and "ensure_directory_structure s (acquired s w) = (Inr (), (acquired s w)\<lparr>fs := f\<rparr>)"
      and "is_dir f (path s)"
      and "flock_enter s w =
        (Inr (lowest_free (open_fds w), Fresh (if is_dir f (cwd w) then Some (cwd w) else None)),
         (acquired s w)\<lparr>fs := f, cwd := path s\<rparr>)"
proof (cases "busy s w")
  case True
  then show ?thesis using flock_enter_busy [OF env True] locked by blast
next
  case False
  let ?fd = "lowest_free (open_fds w)"
  note fe = flock_enter_free [OF env False]
  obtain r w2 where eds: "ensure_directory_structure s (acquired s w) = (r, w2)"
    by (cases "ensure_directory_structure s (acquired s w)")
  note fa = fs_actionD [OF ensure_directory_structure_fs_action eds]
  have w2: "w2 = (acquired s w)\<lparr>fs := fs w2\<rparr>" by (rule fa(2))
  have fresh: "?fd \<notin> set (open_fds w)" by (rule lowest_free_fresh)
  have fds2: "open_fds w2 = ?fd # open_fds w"
    by (subst w2) (simp add: acquired_def)
  have after_close: "w2\<lparr>open_fds := removeAll ?fd (open_fds w2),
          flocks := (flocks w2)(?fd := None), trace := trace w2 @ [CloseFd ?fd]\<rparr>
        = (attempted s w)\<lparr>fs := fs w2, cwd := cwd w,
           flocks := (flocks w)(?fd := None),
           trace := trace w @ [FlockAttempt (strpath (path s)), CloseFd ?fd]\<rparr>"
    using fresh by (subst (1 2 3 4) w2) (simp add: acquired_def attempted_def popped_def)
  show ?thesis
  proof (cases r)
    case (Inl e)
    then have "e \<noteq> Locked" using fa(1) by auto
    moreover have "flock_enter s w =
        (Inl e, (attempted s w)\<lparr>fs := fs w2, cwd := cwd w,
           flocks := (flocks w)(?fd := None),
           trace := trace w @ [FlockAttempt (strpath (path s)), CloseFd ?fd]\<rparr>)"
      using fe eds Inl fds2 after_close by (simp add: finally_do_close_open)
    ultimately show ?thesis using failed False by blast
  next
    case (Inr u)
    show ?thesis
    proof (cases "is_dir (fs w2) (path s)")
      case nd: False
      have "flock_enter s w =
        (Inl (OSError ENOENT), (attempted s w)\<lparr>fs := fs w2, cwd := cwd w,
           flocks := (flocks w)(?fd := None),
           trace := trace w @ [FlockAttempt (strpath (path s)), CloseFd ?fd]\<rparr>)"
        using fe eds Inr fds2 after_close nd by (simp add: finally_do_close_open chdir_def Let_def)
      then show ?thesis using failed [of "OSError ENOENT"] False by blast
    next
      case d: True
      have cw: "cwd w2 = cwd w" by (subst w2) (simp add: acquired_def attempted_def popped_def)
      have "w2\<lparr>cwd := path s\<rparr> = (acquired s w)\<lparr>fs := fs w2, cwd := path s\<rparr>"
        by (subst w2) simp
      then have "flock_enter s w =
        (Inr (?fd, Fresh (if is_dir (fs w2) (cwd w) then Some (cwd w) else None)),
         (acquired s w)\<lparr>fs := fs w2, cwd := path s\<rparr>)"
        using fe eds Inr d cw by (simp add: chdir_def Let_def)
      moreover have "ensure_directory_structure s (acquired s w) =
          (Inr (), (acquired s w)\<lparr>fs := fs w2\<rparr>)"
        using eds Inr w2 by simp
      ultimately show ?thesis using entered False d by blast
    qed
  qed
qed

lemma flock_exit_inherited:
  "trace (snd (flock_exit Inherited h r w)) = trace w @ [CloseFd h]"
  "h \<notin> set (open_fds (snd (flock_exit Inherited h r w)))"
  "environ (snd (flock_exit Inherited h r w)) = environ w"
  by (simp_all add: finally_do_def os_close_result)

lemma flock_enter_fresh_trace:
  assumes env: "environ w PGCTL_SERVICE_LOCK = None \<or> environ w PGCTL_SERVICE_LOCK = Some []"
  shows "\<exists>rest. trace (snd (flock_enter s w)) = trace w @ FlockAttempt (strpath (path s)) # rest"
  using env
proof (cases rule: flock_enter_fresh_outcome [where s = s])
  case locked
  then show ?thesis by (simp add: attempted_def)
next
  case (failed e f c)
  then show ?thesis by simp
next
  case (entered f)
  then show ?thesis by (simp add: acquired_def attempted_def)
qed

lemma flock_enter_fresh_handle:
  assumes env: "environ w PGCTL_SERVICE_LOCK = None \<or> environ w PGCTL_SERVICE_LOCK = Some []"
    and ok: "flock_enter s w = (Inr (fd, sc), w')"
  shows "(\<exists>old. sc = Fresh old) \<and> fd \<notin> set (open_fds w) \<and> fd \<in> set (open_fds w')
       \<and> flocks w' fd = Some (strpath (path s))"
  using env
proof (cases rule: flock_enter_fresh_outcome [where s = s])
  case locked
  with ok show ?thesis by simp
next
  case (failed e f c)
  with ok show ?thesis by simp
next
  case (entered f)
  with ok have "fd = lowest_free (open_fds w)"
    and "sc = Fresh (if is_dir f (cwd w) then Some (cwd w) else None)"
    and "w' = (acquired s w)\<lparr>fs := f, cwd := path s\<rparr>" by simp_all
  then show ?thesis by (simp add: acquired_def lowest_free_fresh)
qed

lemmas model_defs =
  flock_enter_def flock_acquire_def ensure_directory_structure_def ensure_logs_def
  and_then_def fs_op_def assert_exists_def ensure_file_def ensuredirs.simps mkdir_def
  open_write_def remove_def ln_sfn_def write_notification_fd_def chdir_def finally_do_def
  os_close_def emit_def lowest_free_def is_dir_def is_file_def exists_def is_prefix_def
  join_def dirpath_def basename_def name_def ready_script_def notification_fd_def
  PGCTL_SERVICE_LOCK_def Let_def example_world_def example_service_def status_of_def

text \<open>
  C3 as stated fails: with the entry present but empty, the scope is entered by a fresh
  acquisition on the service directory, not with an inherited handle.
\<close>

theorem flock_empty_entry_counterexample:
  "environ (example_world\<lparr>environ := [PGCTL_SERVICE_LOCK \<mapsto> []]\<rparr>) PGCTL_SERVICE_LOCK = Some []
   \<and> fst (flock_enter example_service (example_world\<lparr>environ := [PGCTL_SERVICE_LOCK \<mapsto> []]\<rparr>))
       = Inr (3, Fresh (Some []))
   \<and> trace (snd (flock_enter example_service
        (example_world\<lparr>environ := [PGCTL_SERVICE_LOCK \<mapsto> []]\<rparr>))) = [FlockAttempt ''/svc'']"
  by (simp add: model_defs)

text \<open>
  C3, amended. When the entry \<^verbatim>\<open>PGCTL_SERVICE_LOCK\<close> is present with a non-empty value
  that reads as an integer, entering the scope yields that handle and does nothing else
  but remove the entry (no acquisition is attempted), and leaving the scope closes the
  handle. When the entry is absent or empty, the first thing the entry does is attempt
  a fresh lock on the service directory, and a handle it yields is a newly opened
  descriptor holding that lock.
\<close>

theorem flock_handoff_or_fresh:
  "(environ w PGCTL_SERVICE_LOCK = Some v \<and> v \<noteq> [] \<and> py_int v = Some h \<longrightarrow>
      flock_enter s w =
        (Inr (h, Inherited), w\<lparr>environ := (environ w)(PGCTL_SERVICE_LOCK := None)\<rparr>)
      \<and> (\<forall>r w1. trace (snd (flock_exit Inherited h r w1)) = trace w1 @ [CloseFd h]
            \<and> h \<notin> set (open_fds (snd (flock_exit Inherited h r w1)))))
   \<and> (environ w PGCTL_SERVICE_LOCK = None \<or> environ w PGCTL_SERVICE_LOCK = Some [] \<longrightarrow>
      (\<exists>rest. trace (snd (flock_enter s w))
          = trace w @ FlockAttempt (strpath (path s)) # rest)
      \<and> (\<forall>fd sc w'. flock_enter s w = (Inr (fd, sc), w') \<longrightarrow>
            (\<exists>old. sc = Fresh old) \<and> fd \<notin> set (open_fds w) \<and> fd \<in> set (open_fds w')
            \<and> flocks w' fd = Some (strpath (path s))))"
proof (intro conjI impI allI)
  assume a: "environ w PGCTL_SERVICE_LOCK = Some v \<and> v \<noteq> [] \<and> py_int v = Some h"
  then show "flock_enter s w =
      (Inr (h, Inherited), w\<lparr>environ := (environ w)(PGCTL_SERVICE_LOCK := None)\<rparr>)"
    by (simp add: flock_enter_inherited)
next
  fix r :: "error + 'a" and w1
  show "trace (snd (flock_exit Inherited h r w1)) = trace w1 @ [CloseFd h]"
    by (rule flock_exit_inherited)
  show "h \<notin> set (open_fds (snd (flock_exit Inherited h r w1)))"
    by (rule flock_exit_inherited)
next
  assume "environ w PGCTL_SERVICE_LOCK = None \<or> environ w PGCTL_SERVICE_LOCK = Some []"
  then show "\<exists>rest. trace (snd (flock_enter s w))
      = trace w @ FlockAttempt (strpath (path s)) # rest"
    by (rule flock_enter_fresh_trace)
next
  fix fd sc w'
  assume "environ w PGCTL_SERVICE_LOCK = None \<or> environ w PGCTL_SERVICE_LOCK = Some []"
    and "flock_enter s w = (Inr (fd, sc), w')"
  then have *: "(\<exists>old. sc = Fresh old) \<and> fd \<notin> set (open_fds w) \<and> fd \<in> set (open_fds w')
       \<and> flocks w' fd = Some (strpath (path s))"
    by (rule flock_enter_fresh_handle)
  from * show "\<exists>old. sc = Fresh old" by simp
  from * show "fd \<notin> set (open_fds w)" by simp
  from * show "fd \<in> set (open_fds w')" by simp
  from * show "flocks w' fd = Some (strpath (path s))" by simp
qed

theorem flock_handoff_or_fresh_witness:
  "environ (example_world\<lparr>environ := [PGCTL_SERVICE_LOCK \<mapsto> ''7''], open_fds := [0, 1, 2, 7]\<rparr>)
      PGCTL_SERVICE_LOCK = Some ''7''
   \<and> py_int ''7'' = Some 7
   \<and> flock_enter example_service
        (example_world\<lparr>environ := [PGCTL_SERVICE_LOCK \<mapsto> ''7''], open_fds := [0, 1, 2, 7]\<rparr>)
      = (Inr (7, Inherited), example_world\<lparr>environ := Map.empty, open_fds := [0, 1, 2, 7]\<rparr>)
   \<and> trace (snd (flock_exit Inherited 7 (Inr ())
        (example_world\<lparr>environ := Map.empty, open_fds := [0, 1, 2, 7]\<rparr>))) = [CloseFd 7]
   \<and> open_fds (snd (flock_exit Inherited 7 (Inr ())
        (example_world\<lparr>environ := Map.empty, open_fds := [0, 1, 2, 7]\<rparr>))) = [0, 1, 2]
   \<and> environ example_world PGCTL_SERVICE_LOCK = None
   \<and> fst (flock_enter example_service example_world) = Inr (3, Fresh (Some []))
   \<and> trace (snd (flock_enter example_service example_world)) = [FlockAttempt ''/svc'']
   \<and> flocks (snd (flock_enter example_service example_world)) 3 = Some ''/svc''"
  using
    flock_handoff_or_fresh [of
      "example_world\<lparr>environ := [PGCTL_SERVICE_LOCK \<mapsto> ''7''], open_fds := [0, 1, 2, 7]\<rparr>"
      "''7''" 7 example_service]
    flock_handoff_or_fresh [of example_world "[]" 0 example_service]
  by (simp add: model_defs py_int_def strip_def is_space_def unsigned_value_def digit_of_def)

text \<open>
  C10. Adopting an inherited handle removes \<^verbatim>\<open>PGCTL_SERVICE_LOCK\<close> from the process
  environment, and leaving the scope does not bring it back. So a later entry of the
  scope in the same process, its environment not touched in between, never yields an
  inherited handle: it starts with a fresh acquisition attempt.
\<close>

theorem flock_handoff_single_use:
  assumes "environ w PGCTL_SERVICE_LOCK = Some v" and "v \<noteq> []" and "py_int v = Some h"
  shows "fst (flock_enter s w) = Inr (h, Inherited)
     \<and> environ (snd (flock_enter s w)) PGCTL_SERVICE_LOCK = None
     \<and> (\<forall>w2. environ w2 = environ (snd (flock_enter s w)) \<longrightarrow>
           (\<forall>h2. fst (flock_enter s w2) \<noteq> Inr (h2, Inherited))
           \<and> (\<exists>rest. trace (snd (flock_enter s w2))
                 = trace w2 @ FlockAttempt (strpath (path s)) # rest))
     \<and> (\<forall>r. environ (snd (flock_exit Inherited h r (snd (flock_enter s w))))
           = environ (snd (flock_enter s w)))"
proof -
  have enter: "flock_enter s w =
      (Inr (h, Inherited), w\<lparr>environ := (environ w)(PGCTL_SERVICE_LOCK := None)\<rparr>)"
    using assms by (rule flock_enter_inherited)
  have later: "(\<forall>h2. fst (flock_enter s w2) \<noteq> Inr (h2, Inherited))
      \<and> (\<exists>rest. trace (snd (flock_enter s w2))
            = trace w2 @ FlockAttempt (strpath (path s)) # rest)"
    if "environ w2 = environ (snd (flock_enter s w))" for w2
  proof -
    from that enter have none: "environ w2 PGCTL_SERVICE_LOCK = None" by simp
    then have env: "environ w2 PGCTL_SERVICE_LOCK = None \<or> environ w2 PGCTL_SERVICE_LOCK = Some []"
      by simp
    have "fst (flock_enter s w2) \<noteq> Inr (h2, Inherited)" for h2
    proof
      assume eq: "fst (flock_enter s w2) = Inr (h2, Inherited)"
      obtain w' where "flock_enter s w2 = (Inr (h2, Inherited), w')"
        using eq by (cases "flock_enter s w2") simp
      from flock_enter_fresh_handle [OF env this] show False by simp
    qed
    with flock_enter_fresh_trace [OF env] show ?thesis by blast
  qed
  have out: "environ (snd (flock_exit Inherited h r w')) = environ w'"
    for r :: "error + 'a" and w'
    by (rule flock_exit_inherited)
  have "fst (flock_enter s w) = Inr (h, Inherited)"
    and "environ (snd (flock_enter s w)) PGCTL_SERVICE_LOCK = None"
    using enter by simp_all
  with later out show ?thesis by blast
qed

theorem flock_handoff_single_use_witness:
  "environ (example_world\<lparr>environ := [PGCTL_SERVICE_LOCK \<mapsto> ''7''], open_fds := [0, 1, 2, 7]\<rparr>)
      PGCTL_SERVICE_LOCK = Some ''7''
   \<and> py_int ''7'' = Some 7
   \<and> fst (flock_enter example_service
        (example_world\<lparr>environ := [PGCTL_SERVICE_LOCK \<mapsto> ''7''], open_fds := [0, 1, 2, 7]\<rparr>))
      = Inr (7, Inherited)
   \<and> fst (flock_enter example_service
        (snd (flock_enter example_service
          (example_world\<lparr>environ := [PGCTL_SERVICE_LOCK \<mapsto> ''7''], open_fds := [0, 1, 2, 7]\<rparr>))))
      = Inr (3, Fresh (Some []))
   \<and> trace (snd (flock_enter example_service
        (snd (flock_enter example_service
          (example_world\<lparr>environ := [PGCTL_SERVICE_LOCK \<mapsto> ''7''], open_fds := [0, 1, 2, 7]\<rparr>)))))
      = [FlockAttempt ''/svc'']"
  using
    flock_handoff_single_use [of
      "example_world\<lparr>environ := [PGCTL_SERVICE_LOCK \<mapsto> ''7''], open_fds := [0, 1, 2, 7]\<rparr>"
      "''7''" 7 example_service]
  by (simp add: model_defs py_int_def strip_def is_space_def unsigned_value_def digit_of_def)

section \<open>Asserting that a service is stopped: properties\<close>

lemma scope_cases:
  obtains "sc = Inherited" | "sc = Fresh None" | c where "sc = Fresh (Some c)"
proof (cases sc)
  case Inherited
  then show ?thesis using that by blast
next
  case (Fresh old)
  then show ?thesis using that by (cases old) auto
qed

lemma flock_exit_frame:
  "flock_attempts (snd (flock_exit sc h r w)) = flock_attempts w"
  "trace (snd (flock_exit sc h r w)) = trace w @ [CloseFd h]"
  "environ (snd (flock_exit sc h r w)) = environ w"
  "fs (snd (flock_exit sc h r w)) = fs w"
  "held_elsewhere (snd (flock_exit sc h r w)) = held_elsewhere w"
  by (rule scope_cases [of sc];
      simp add: finally_do_def os_close_result and_then_def chdir_def Let_def)+

lemma flock_exit_ok:
  assumes "h \<in> set (open_fds w)" and "\<And>c. sc = Fresh (Some c) \<Longrightarrow> is_dir (fs w) c"
  shows "fst (flock_exit sc h r w) = r"
proof (rule scope_cases [of sc])
  assume "sc = Inherited"
  with assms(1) show ?thesis by (simp add: finally_do_def os_close_result)
next
  assume "sc = Fresh None"
  with assms(1) show ?thesis by (simp add: finally_do_def os_close_result)
next
  fix c
  assume sc: "sc = Fresh (Some c)"
  with assms(2) have "is_dir (fs w) c" by simp
  with assms(1) sc show ?thesis
    by (simp add: finally_do_def os_close_result and_then_def chdir_def Let_def)
qed

lemma flock_enter_with_value:
  assumes "environ w PGCTL_SERVICE_LOCK = Some v" and "v \<noteq> []"
  shows "flock_enter s w =
     (case py_int v of
        None \<Rightarrow> (Inl ValueError, popped w)
      | Some h \<Rightarrow> (Inr (h, Inherited), popped w))"
  using assms by (simp add: flock_enter_def Let_def popped_def split: option.splits)

lemma entry_cases:
  obtains (fresh) "environ w PGCTL_SERVICE_LOCK = None \<or> environ w PGCTL_SERVICE_LOCK = Some []"
  | (valued) v where "environ w PGCTL_SERVICE_LOCK = Some v" and "v \<noteq> []"
  by (cases "environ w PGCTL_SERVICE_LOCK") auto

lemma with_flock_busy:
  assumes "environ w PGCTL_SERVICE_LOCK = None \<or> environ w PGCTL_SERVICE_LOCK = Some []"
    and "busy s w"
  shows "with_flock s body w = (Inl Locked, attempted s w)"
  using flock_enter_busy [OF assms] by (simp add: with_flock_def)

lemma with_flock_general:
  "flock_attempts (snd (with_flock s (\<lambda>lock. Pair (Inr ())) w)) \<le> Suc (flock_attempts w)
   \<and> (\<exists>rest. trace (snd (with_flock s (\<lambda>lock. Pair (Inr ())) w)) = trace w @ rest
         \<and> (\<forall>e \<in> set rest. is_retry_event e))"
proof (cases rule: entry_cases [of w])
  case (valued v)
  show ?thesis
  proof (cases "py_int v")
    case None
    then show ?thesis
      using flock_enter_with_value [OF valued, of s] by (simp add: with_flock_def popped_def)
  next
    case (Some h)
    then have "with_flock s (\<lambda>lock. Pair (Inr ())) w = flock_exit Inherited h (Inr ()) (popped w)"
      using flock_enter_with_value [OF valued, of s] by (simp add: with_flock_def)
    then show ?thesis by (simp add: flock_exit_frame popped_def del: flock_exit.simps)
  qed
next
  case fresh
  then show ?thesis
  proof (cases rule: flock_enter_fresh_outcome [where s = s])
    case locked
    then show ?thesis by (simp add: with_flock_def attempted_def)
  next
    case (failed e f c)
    then show ?thesis by (simp add: with_flock_def attempted_def)
  next
    case (entered f)
    then show ?thesis
      by (simp add: with_flock_def flock_exit_frame acquired_def attempted_def
          del: flock_exit.simps)
  qed
qed

lemma with_flock_free:
  assumes env: "environ w PGCTL_SERVICE_LOCK = None \<or> environ w PGCTL_SERVICE_LOCK = Some []"
    and free: "\<not> busy s w"
  shows "fst (with_flock s (\<lambda>lock. Pair (Inr ())) w) \<noteq> Inl Locked"
    and "flock_attempts (snd (with_flock s (\<lambda>lock. Pair (Inr ())) w)) = Suc (flock_attempts w)"
proof -
  have "fst (with_flock s (\<lambda>lock. Pair (Inr ())) w) \<noteq> Inl Locked
      \<and> flock_attempts (snd (with_flock s (\<lambda>lock. Pair (Inr ())) w)) = Suc (flock_attempts w)"
    using env
  proof (cases rule: flock_enter_fresh_outcome [where s = s])
    case locked
    with free show ?thesis by simp
  next
    case (failed e f c)
    then show ?thesis by (simp add: with_flock_def attempted_def)
  next
    case (entered f)
    let ?w3 = "(acquired s w)\<lparr>fs := f, cwd := path s\<rparr>"
    let ?sc = "Fresh (if is_dir f (cwd w) then Some (cwd w) else None)"
    have "fst (flock_exit ?sc (lowest_free (open_fds w)) (Inr ()) ?w3) = Inr ()"
      by (rule flock_exit_ok) (auto simp: acquired_def split: if_splits)
    then show ?thesis
      using entered
      by (simp add: with_flock_def flock_exit_frame acquired_def attempted_def
          del: flock_exit.simps)
  qed
  then show "fst (with_flock s (\<lambda>lock. Pair (Inr ())) w) \<noteq> Inl Locked"
    and "flock_attempts (snd (with_flock s (\<lambda>lock. Pair (Inr ())) w)) = Suc (flock_attempts w)"
    by simp_all
qed

lemma race_loop_general:
  "flock_attempts (snd (race_loop n s w)) \<le> flock_attempts w + n
   \<and> (\<exists>rest. trace (snd (race_loop n s w)) = trace w @ rest
         \<and> (\<forall>e \<in> set rest. is_retry_event e))"
proof (induction n arbitrary: w)
  case 0
  show ?case by simp
next
  case (Suc n)
  obtain r w1 where wf: "with_flock s (\<lambda>lock. Pair (Inr ())) w = (r, w1)"
    by (cases "with_flock s (\<lambda>lock. Pair (Inr ())) w")
  from with_flock_general [of s w] wf obtain rest1 where
    a1: "flock_attempts w1 \<le> Suc (flock_attempts w)" and
    t1: "trace w1 = trace w @ rest1" and q1: "\<forall>e \<in> set rest1. is_retry_event e"
    by auto
  show ?case
  proof (cases "r = Inl Locked")
    case False
    then have "race_loop (Suc n) s w = (r, w1)"
      using wf by (auto split: sum.splits error.splits)
    then show ?thesis using a1 t1 q1 by auto
  next
    case True
    let ?w2 = "emit (ShowRunaway (strpath (path s))) w1"
    have step: "race_loop (Suc n) s w = race_loop n s ?w2"
      using wf True by (simp add: show_runaway_processes_def)
    from Suc.IH [of ?w2] obtain rest2 where
      a2: "flock_attempts (snd (race_loop n s ?w2)) \<le> flock_attempts ?w2 + n" and
      t2: "trace (snd (race_loop n s ?w2)) = trace ?w2 @ rest2" and
      q2: "\<forall>e \<in> set rest2. is_retry_event e"
      by auto
    have "flock_attempts (snd (race_loop (Suc n) s w)) \<le> flock_attempts w + Suc n"
      using step a1 a2 by (simp add: emit_def)
    moreover have "trace (snd (race_loop (Suc n) s w))
        = trace w @ (rest1 @ ShowRunaway (strpath (path s)) # rest2)"
      using step t1 t2 by (simp add: emit_def)
    moreover have "\<forall>e \<in> set (rest1 @ ShowRunaway (strpath (path s)) # rest2). is_retry_event e"
      using q1 q2 by auto
    ultimately show ?thesis by blast
  qed
qed

lemma race_loop_busy_step:
  assumes "environ w PGCTL_SERVICE_LOCK = None \<or> environ w PGCTL_SERVICE_LOCK = Some []"
    and "busy s w"
  shows "race_loop (Suc n) s w
     = race_loop n s (emit (ShowRunaway (strpath (path s))) (attempted s w))"
  using with_flock_busy [OF assms, of "\<lambda>lock. Pair (Inr ())"]
  by (simp add: show_runaway_processes_def)

lemma race_loop_busy_steps:
  assumes "environ w PGCTL_SERVICE_LOCK = None \<or> environ w PGCTL_SERVICE_LOCK = Some []"
    and "\<forall>j<k. held_elsewhere w (flock_attempts w + j) (strpath (path s))
           \<or> (\<exists>fd \<in> set (open_fds w). flocks w fd = Some (strpath (path s)))"
    and "k \<le> n"
  shows "\<exists>w'. race_loop n s w = race_loop (n - k) s w'
      \<and> flock_attempts w' = flock_attempts w + k
      \<and> held_elsewhere w' = held_elsewhere w
      \<and> open_fds w' = open_fds w \<and> flocks w' = flocks w \<and> fs w' = fs w
      \<and> (environ w' PGCTL_SERVICE_LOCK = None \<or> environ w' PGCTL_SERVICE_LOCK = Some [])"
  using assms
proof (induction k arbitrary: w n)
  case 0
  then show ?case by auto
next
  case (Suc k)
  from Suc.prems(3) obtain m where n: "n = Suc m" and km: "k \<le> m" by (cases n) auto
  let ?w1 = "emit (ShowRunaway (strpath (path s))) (attempted s w)"
  have "held_elsewhere w (flock_attempts w + 0) (strpath (path s))
      \<or> (\<exists>fd \<in> set (open_fds w). flocks w fd = Some (strpath (path s)))"
    using Suc.prems(2) by blast
  then have b: "busy s w" by (simp add: busy_def)
  have step: "race_loop n s w = race_loop m s ?w1"
    unfolding n by (rule race_loop_busy_step [OF Suc.prems(1) b])
  have env1: "environ ?w1 PGCTL_SERVICE_LOCK = None \<or> environ ?w1 PGCTL_SERVICE_LOCK = Some []"
    by (simp add: emit_def attempted_def popped_def)
  have held1: "\<forall>j<k. held_elsewhere ?w1 (flock_attempts ?w1 + j) (strpath (path s))
      \<or> (\<exists>fd \<in> set (open_fds ?w1). flocks ?w1 fd = Some (strpath (path s)))"
  proof (intro allI impI)
    fix j assume "j < k"
    then have "held_elsewhere w (flock_attempts w + Suc j) (strpath (path s))
        \<or> (\<exists>fd \<in> set (open_fds w). flocks w fd = Some (strpath (path s)))"
      using Suc.prems(2) by (meson Suc_less_eq)
    then show "held_elsewhere ?w1 (flock_attempts ?w1 + j) (strpath (path s))
        \<or> (\<exists>fd \<in> set (open_fds ?w1). flocks ?w1 fd = Some (strpath (path s)))"
      by (simp add: emit_def attempted_def popped_def)
  qed
  from Suc.IH [OF env1 held1 km] obtain w' where
    w': "race_loop m s ?w1 = race_loop (m - k) s w'"
      "flock_attempts w' = flock_attempts ?w1 + k"
      "held_elsewhere w' = held_elsewhere ?w1"
      "open_fds w' = open_fds ?w1" "flocks w' = flocks ?w1" "fs w' = fs ?w1"
      "environ w' PGCTL_SERVICE_LOCK = None \<or> environ w' PGCTL_SERVICE_LOCK = Some []"
    by blast
  have "race_loop n s w = race_loop (n - Suc k) s w'"
    using step w'(1) n by simp
  moreover have "flock_attempts w' = flock_attempts w + Suc k"
    using w'(2) by (simp add: emit_def attempted_def popped_def)
  moreover have "held_elsewhere w' = held_elsewhere w" "open_fds w' = open_fds w"
    "flocks w' = flocks w" "fs w' = fs w"
    using w'(3-6) by (simp_all add: emit_def attempted_def popped_def)
  ultimately show ?case using w'(7) by blast
qed

lemma race_loop_all_busy:
  assumes "environ w PGCTL_SERVICE_LOCK = None \<or> environ w PGCTL_SERVICE_LOCK = Some []"
    and "\<forall>j<n. held_elsewhere w (flock_attempts w + j) (strpath (path s))
           \<or> (\<exists>fd \<in> set (open_fds w). flocks w fd = Some (strpath (path s)))"
  shows "fst (race_loop n s w) = Inl Impossible"
    and "flock_attempts (snd (race_loop n s w)) = flock_attempts w + n"
proof -
  from race_loop_busy_steps [OF assms order_refl] obtain w' where
    "race_loop n s w = race_loop 0 s w'" and "flock_attempts w' = flock_attempts w + n"
    by auto
  then show "fst (race_loop n s w) = Inl Impossible"
    and "flock_attempts (snd (race_loop n s w)) = flock_attempts w + n"
    by simp_all
qed

lemma race_loop_first_free:
  assumes env: "environ w PGCTL_SERVICE_LOCK = None \<or> environ w PGCTL_SERVICE_LOCK = Some []"
    and held: "\<forall>j<k. held_elsewhere w (flock_attempts w + j) (strpath (path s))"
    and free: "\<not> held_elsewhere w (flock_attempts w + k) (strpath (path s))"
    and own: "\<forall>fd \<in> set (open_fds w). flocks w fd \<noteq> Some (strpath (path s))"
    and k: "k < n"
  shows "\<exists>w'. race_loop n s w = with_flock s (\<lambda>lock. Pair (Inr ())) w'
      \<and> fs w' = fs w \<and> \<not> busy s w'
      \<and> (environ w' PGCTL_SERVICE_LOCK = None \<or> environ w' PGCTL_SERVICE_LOCK = Some [])
      \<and> flock_attempts (snd (race_loop n s w)) = flock_attempts w + k + 1"
proof -
  from k have kn: "k \<le> n" by simp
  from held have held': "\<forall>j<k. held_elsewhere w (flock_attempts w + j) (strpath (path s))
      \<or> (\<exists>fd \<in> set (open_fds w). flocks w fd = Some (strpath (path s)))"
    by blast
  from race_loop_busy_steps [OF env held' kn] obtain w' where
    w': "race_loop n s w = race_loop (n - k) s w'"
      "flock_attempts w' = flock_attempts w + k"
      "held_elsewhere w' = held_elsewhere w"
      "open_fds w' = open_fds w" "flocks w' = flocks w" "fs w' = fs w"
      "environ w' PGCTL_SERVICE_LOCK = None \<or> environ w' PGCTL_SERVICE_LOCK = Some []"
    by blast
  from k obtain m where m: "n - k = Suc m" by (cases "n - k") auto
  have nb: "\<not> busy s w'"
    using free own w'(2-5) by (simp add: busy_def)
  note wf = with_flock_free [OF w'(7) nb]
  obtain r w2 where rw: "with_flock s (\<lambda>lock. Pair (Inr ())) w' = (r, w2)"
    by (cases "with_flock s (\<lambda>lock. Pair (Inr ())) w'")
  with wf(1) have "r \<noteq> Inl Locked" by simp
  then have "race_loop (Suc m) s w' = (r, w2)"
    using rw by (auto split: sum.splits error.splits)
  then have eq: "race_loop n s w = with_flock s (\<lambda>lock. Pair (Inr ())) w'"
    using w'(1) m rw by simp
  moreover have "flock_attempts (snd (race_loop n s w)) = flock_attempts w + k + 1"
    using eq wf(2) w'(2) by simp
  ultimately show ?thesis using w'(6,7) nb by blast
qed

lemma svstat_frame:
  "flock_attempts (snd (svstat s w)) = flock_attempts w"
  "environ (snd (svstat s w)) = environ w"
  "held_elsewhere (snd (svstat s w)) = held_elsewhere w"
  "open_fds (snd (svstat s w)) = open_fds w"
  "flocks (snd (svstat s w)) = flocks w"
  "fs (snd (svstat s w)) = fs w"
  by (simp_all add: svstat_def assert_exists_def as_cwd_def chdir_def svstat_query_def
      emit_def Let_def split: prod.splits sum.splits option.splits)

lemma svstat_ok_dirs:
  assumes "fst (svstat s w) = Inr status"
  shows "is_dir (fs w) (path s)" and "is_dir (fs w) (dirpath (path s))"
proof -
  show "is_dir (fs w) (path s)"
    using assms by (cases "is_dir (fs w) (path s)") (simp_all add: svstat_missing)
  then show "is_dir (fs w) (dirpath (path s))"
    using assms
    by (cases "is_dir (fs w) (dirpath (path s))")
      (simp_all add: svstat_def assert_exists_def as_cwd_def chdir_def Let_def)
qed

lemma assert_stopped_after_status:
  assumes "fst (svstat s w) = Inr status"
  shows "assert_stopped s w =
     (if state status \<noteq> UNSUPERVISED then (Inl (NotReady status), snd (svstat s w))
      else race_loop 10 s (snd (svstat s w)))"
  using assms by (cases "svstat s w") (simp add: assert_stopped_def)

text \<open>
  C5, amended. \<^verbatim>\<open>assert_stopped\<close> queries the status once, before the loop, and checks
  it there: a status that is not \<open>unsupervised\<close> raises \<^verbatim>\<open>NotReady\<close> with that status, and
  nothing but the query has happened. A status that is \<open>unsupervised\<close> leads into the
  retry loop, and what the up-to-10 retries do is attempt the lock, close the handle
  again, and report runaway processes after a failure: no retry queries the status.
\<close>

theorem assert_stopped_queries_status_once:
  assumes "fst (svstat s w) = Inr status"
  shows "(state status \<noteq> UNSUPERVISED \<longrightarrow>
            fst (assert_stopped s w) = Inl (NotReady status)
            \<and> trace (snd (assert_stopped s w))
                = trace w @ [SvstatQuery (dirpath (path s)) (name s)])
       \<and> (state status = UNSUPERVISED \<longrightarrow>
            assert_stopped s w = race_loop 10 s (snd (svstat s w))
            \<and> (\<exists>rest. trace (snd (assert_stopped s w))
                    = trace w @ SvstatQuery (dirpath (path s)) (name s) # rest
                  \<and> (\<forall>e \<in> set rest. is_retry_event e)
                  \<and> (\<forall>d n. SvstatQuery d n \<notin> set rest)))"
proof (intro conjI impI)
  note dirs = svstat_ok_dirs [OF assms]
  have t1: "trace (snd (svstat s w)) = trace w @ [SvstatQuery (dirpath (path s)) (name s)]"
    by (simp add: svstat_world [OF dirs] emit_def)
  {
    assume "state status \<noteq> UNSUPERVISED"
    then show "fst (assert_stopped s w) = Inl (NotReady status)"
      and "trace (snd (assert_stopped s w))
          = trace w @ [SvstatQuery (dirpath (path s)) (name s)]"
      using t1 by (simp_all add: assert_stopped_after_status [OF assms])
  }
  {
    assume un: "state status = UNSUPERVISED"
    then show loop: "assert_stopped s w = race_loop 10 s (snd (svstat s w))"
      by (simp add: assert_stopped_after_status [OF assms])
    from race_loop_general [of 10 s "snd (svstat s w)"] obtain rest where
      tr: "trace (snd (race_loop 10 s (snd (svstat s w)))) = trace (snd (svstat s w)) @ rest"
      and ev: "\<forall>e \<in> set rest. is_retry_event e" by blast
    have "SvstatQuery d n \<notin> set rest" for d n
      using ev by (auto dest: bspec [where x = "SvstatQuery d n"])
    then show "\<exists>rest. trace (snd (assert_stopped s w))
          = trace w @ SvstatQuery (dirpath (path s)) (name s) # rest
        \<and> (\<forall>e \<in> set rest. is_retry_event e)
        \<and> (\<forall>d n. SvstatQuery d n \<notin> set rest)"
      using tr ev t1 loop by auto
  }
qed

lemmas race_defs =
  assert_stopped_def svstat_def as_cwd_def svstat_query_def with_flock_def
  show_runaway_processes_def UNSUPERVISED_def eval_nat_numeral

text \<open>
  C5 as stated fails: against a lock that stays held, \<^verbatim>\<open>assert_stopped\<close> makes its ten
  acquisition attempts after a single status query; no retry queries the status.
\<close>

theorem assert_stopped_status_per_retry_counterexample:
  "trace (snd (assert_stopped example_service
      (example_world\<lparr>held_elsewhere := (\<lambda>n p. True)\<rparr>)))
   = SvstatQuery [] ''svc''
       # concat (replicate 10 [FlockAttempt ''/svc'', ShowRunaway ''/svc''])"
  by (simp add: race_defs model_defs)

theorem assert_stopped_queries_status_once_witness:
  "fst (svstat example_service (example_world\<lparr>held_elsewhere := (\<lambda>n p. n < 2)\<rparr>))
     = Inr (status_of ''unsupervised'' None None None)
   \<and> state (status_of ''unsupervised'' None None None) = UNSUPERVISED
   \<and> trace (snd (assert_stopped example_service
        (example_world\<lparr>held_elsewhere := (\<lambda>n p. n < 2)\<rparr>)))
     = [SvstatQuery [] ''svc'', FlockAttempt ''/svc'', ShowRunaway ''/svc'',
        FlockAttempt ''/svc'', ShowRunaway ''/svc'', FlockAttempt ''/svc'', CloseFd 3]
   \<and> fst (svstat example_service
        (example_world\<lparr>supervisor_status := (\<lambda>p. status_of ''down'' None None None)\<rparr>))
     = Inr (status_of ''down'' None None None)
   \<and> state (status_of ''down'' None None None) \<noteq> UNSUPERVISED
   \<and> assert_stopped example_service
        (example_world\<lparr>supervisor_status := (\<lambda>p. status_of ''down'' None None None)\<rparr>)
     = (Inl (NotReady (status_of ''down'' None None None)),
        example_world\<lparr>supervisor_status := (\<lambda>p. status_of ''down'' None None None),
          trace := [SvstatQuery [] ''svc'']\<rparr>)"
  using assert_stopped_queries_status_once [of example_service
      "example_world\<lparr>held_elsewhere := (\<lambda>n p. n < 2)\<rparr>" "status_of ''unsupervised'' None None None"]
    assert_stopped_queries_status_once [of example_service
      "example_world\<lparr>supervisor_status := (\<lambda>p. status_of ''down'' None None None)\<rparr>"
      "status_of ''down'' None None None"]
  by (simp add: race_defs model_defs)

section \<open>Directory structure: idempotence\<close>

lemma is_prefix_iff: "is_prefix p q \<longleftrightarrow> (\<exists>r. q = p @ r)"
proof
  assume "is_prefix p q"
  then have "q = p @ drop (length p) q"
    unfolding is_prefix_def by (metis append_take_drop_id)
  then show "\<exists>r. q = p @ r" ..
next
  assume "\<exists>r. q = p @ r"
  then show "is_prefix p q" by (auto simp: is_prefix_def)
qed

lemma is_prefix_refl: "is_prefix p p"
  by (simp add: is_prefix_def)

lemma is_prefix_dirpath: "is_prefix x (dirpath q) \<Longrightarrow> is_prefix x q"
  unfolding is_prefix_iff dirpath_def
  by (metis append_assoc append_butlast_last_id butlast.simps(1))


lemma is_prefix_longer: "is_prefix p q \<Longrightarrow> length p \<le> length q"
  unfolding is_prefix_iff by auto

lemma mkdir_success:
  assumes "mkdir q f = Inr f'"
  shows "f' = f(q \<mapsto> Dir)" and "f q = None" and "is_dir f (dirpath q)"
  using assms by (auto simp: mkdir_def is_dir_def split: if_splits option.splits node.splits)

lemma ensuredirs_root: "dirpath q = q \<Longrightarrow> ensuredirs q f = Inr f"
  by (subst ensuredirs.simps) simp

lemma ensuredirs_unfold:
  assumes "dirpath q \<noteq> q"
  shows "ensuredirs q f =
     (case (if \<not> is_dir f (dirpath q) then ensuredirs (dirpath q) f else Inr f) of
        Inl e \<Rightarrow> Inl e
      | Inr f1 \<Rightarrow> (if \<not> is_dir f1 q then mkdir q f1 else Inr f1))"
  using assms by (subst ensuredirs.simps) simp

text \<open>What a successful \<open>ensuredirs\<close> changes: it adds directories at missing prefixes.\<close>

lemma ensuredirs_effect:
  "ensuredirs q f = Inr f' \<Longrightarrow>
     f' x = f x \<or> (f x = None \<and> f' x = Some Dir \<and> is_prefix x q)"
proof (induction q f arbitrary: f' x rule: ensuredirs.induct)
  case (1 q f)
  show ?case
  proof (cases "dirpath q = q")
    case True
    with "1.prems" show ?thesis by (simp add: ensuredirs_root)
  next
    case False
    obtain f1 where
      f1: "(if \<not> is_dir f (dirpath q) then ensuredirs (dirpath q) f else Inr f) = Inr f1"
      and last: "(if \<not> is_dir f1 q then mkdir q f1 else Inr f1) = Inr f'"
      using "1.prems" by (auto simp: ensuredirs_unfold [OF False] split: sum.splits)
    have step1: "f1 x = f x \<or> (f x = None \<and> f1 x = Some Dir \<and> is_prefix x q)" for x
    proof (cases "is_dir f (dirpath q)")
      case True
      with f1 show ?thesis by simp
    next
      case nd: False
      with f1 have "ensuredirs (dirpath q) f = Inr f1" by simp
      from "1.IH" [OF False nd this, of x] show ?thesis by (auto dest: is_prefix_dirpath)
    qed
    show ?thesis
    proof (cases "is_dir f1 q")
      case True
      with last have "f' = f1" by simp
      with step1 show ?thesis by simp
    next
      case nd: False
      with last have mk: "mkdir q f1 = Inr f'" by simp
      note m = mkdir_success [OF mk]
      show ?thesis
      proof (cases "x = q")
        case True
        have "f q = None" using step1 [of q] m(2) by auto
        with True m(1) show ?thesis by (simp add: is_prefix_refl)
      next
        case False
        with m(1) have "f' x = f1 x" by simp
        with step1 [of x] show ?thesis by simp
      qed
    qed
  qed
qed

lemma ensuredirs_keeps: "ensuredirs q f = Inr f' \<Longrightarrow> f x \<noteq> None \<Longrightarrow> f' x = f x"
  using ensuredirs_effect [of q f f' x] by auto


lemma ensuredirs_keeps_dir: "ensuredirs q f = Inr f' \<Longrightarrow> is_dir f x \<Longrightarrow> is_dir f' x"
  using ensuredirs_keeps [of q f f' x] by (simp add: is_dir_def)





lemma open_write_success:
  assumes "open_write p c f = Inr f'"
  shows "f' = f(p \<mapsto> File c)" and "is_dir f (dirpath p)"
  using assms by (auto simp: open_write_def split: option.splits node.splits if_splits)

lemma not_prefix_of_dirpath: "\<not> is_prefix (q @ [a]) q"
  by (auto dest: is_prefix_longer)

lemma dirpath_join [simp]: "dirpath (join p a) = p"
  by (simp add: dirpath_def join_def)

lemma join_not_self [simp]: "join p a \<noteq> p" "p \<noteq> join p a"
  by (simp_all add: join_def)


lemma ensure_file_success:
  assumes "ensure_file p f = Inr f'"
  obtains e where "ensuredirs (dirpath p) f = Inr e" and "f' = e \<or> f' = e(p \<mapsto> File [])"
    and "is_file f' p"
proof -
  obtain e where e: "ensuredirs (dirpath p) f = Inr e"
    and last: "(if \<not> is_file e p then open_write p [] e else Inr e) = Inr f'"
    using assms by (auto simp: ensure_file_def split: sum.splits)
  show ?thesis
  proof (cases "is_file e p")
    case True
    with last have "f' = e" by simp
    with True e that show ?thesis by blast
  next
    case False
    with last have "open_write p [] e = Inr f'" by simp
    from open_write_success(1) [OF this] have "f' = e(p \<mapsto> File [])" .
    moreover from this have "is_file f' p" by (simp add: is_file_def)
    ultimately show ?thesis using e that by blast
  qed
qed

lemma ensure_file_effect:
  assumes "ensure_file p f = Inr f'" and "x \<noteq> p"
  shows "f' x = f x \<or> (f x = None \<and> f' x = Some Dir \<and> is_prefix x (dirpath p))"
proof -
  from ensure_file_success [OF assms(1)] obtain e where
    e: "ensuredirs (dirpath p) f = Inr e" and f': "f' = e \<or> f' = e(p \<mapsto> File [])" by blast
  from f' assms(2) have "f' x = e x" by auto
  with ensuredirs_effect [OF e, of x] show ?thesis by simp
qed

lemma ensure_file_keeps:
  assumes "ensure_file p f = Inr f'" and "x \<noteq> p" and "f x \<noteq> None"
  shows "f' x = f x"
  using ensure_file_effect [OF assms(1,2)] assms(3) by auto



lemma remove_success:
  assumes "remove p f = Inr f'"
  shows "f' p = None" and "\<And>x. \<not> is_prefix p x \<Longrightarrow> f' x = f x"
proof -
  show "f' p = None"
    using assms by (auto simp: remove_def is_prefix_refl split: if_splits)
  show "f' x = f x" if "\<not> is_prefix p x" for x
  proof -
    from that have "x \<noteq> p" by (auto simp: is_prefix_refl)
    with assms that show ?thesis by (auto simp: remove_def split: if_splits)
  qed
qed

lemma remove_missing: "remove p f = Inl e \<Longrightarrow> e = OSError ENOENT \<and> f p = None"
  by (auto simp: remove_def split: if_splits)


lemma ln_sfn_success:
  assumes "ln_sfn t l f = Inr f'"
  obtains dest where "dest = l \<or> dest = join l (basename t)"
    and "f' = f(dest \<mapsto> Symlink (strpath t))" and "ln_sfn t l f' = Inr f'"
proof -
  let ?dest = "if is_dir f l then join l (basename t) else l"
  from assms have nd: "\<not> is_dir f ?dest" and pd: "is_dir f (dirpath ?dest)"
    and f': "f' = f(?dest \<mapsto> Symlink (strpath t))"
    by (auto simp: ln_sfn_def Let_def split: if_splits)
  have ne: "dirpath ?dest \<noteq> ?dest" using nd pd by auto
  have same: "is_dir f' l = is_dir f l"
    using f' nd by (auto simp: is_dir_def)
  have "\<not> is_dir f' ?dest" using f' by (simp add: is_dir_def)
  moreover have "is_dir f' (dirpath ?dest)" using f' pd ne by (simp add: is_dir_def)
  moreover have "f'(?dest \<mapsto> Symlink (strpath t)) = f'" using f' by simp
  ultimately have "ln_sfn t l f' = Inr f'"
    using same by (simp add: ln_sfn_def Let_def)
  with f' that [of ?dest] show ?thesis by auto
qed

lemma and_then_success:
  assumes "and_then m k w = (Inr y, w')"
  obtains x w1 where "m w = (Inr x, w1)" and "k x w1 = (Inr y, w')"
  using assms by (auto simp: and_then_def split: prod.splits sum.splits)

lemma fs_op_success:
  assumes "fs_op g w = (Inr u, w')"
  obtains f' where "g (fs w) = Inr f'" and "w' = w\<lparr>fs := f'\<rparr>"
  using assms by (auto simp: fs_op_def split: sum.splits)

lemma fs_op_noop: "g (fs w) = Inr (fs w) \<Longrightarrow> fs_op g w = (Inr (), w)"
  by (simp add: fs_op_def)

text \<open>The stages of a successful run of \<open>ensure_directory_structure\<close>.\<close>

lemma ensure_directory_structure_stages:
  assumes "ensure_directory_structure s w = (Inr (), w')"
  obtains f2 f3 f4 f5 f6 where
    "is_dir (fs w) (path s)"
    and "ensure_file (join (path s) ''log'') (fs w) = Inr f2"
    and "ensure_file (join (path s) ''nosetsid'') f2 = Inr f3"
    and "remove (join (path s) ''down'') f3 = Inr f4
         \<or> (remove (join (path s) ''down'') f3 = Inl (OSError ENOENT) \<and> f4 = f3)"
    and "if exists f4 (ready_script s)
         then open_write (notification_fd s)
                (py_str (lowest_free (open_fds w)) @ [CHR 0x0A]) f4 = Inr f5
         else f5 = f4"
    and "ensuredirs (join (scratch_dir s) ''supervise'') f5 = Inr f6"
    and "ln_sfn (join (scratch_dir s) ''supervise'') (join (path s) ''supervise'') f6
           = Inr (fs w')"
    and "w' = w\<lparr>fs := fs w'\<rparr>"
proof -
  from assms obtain u1 w1 where
    s1: "assert_exists s w = (Inr u1, w1)" and
    r1: "and_then (ensure_logs s) (\<lambda>u2.
     and_then (fs_op (ensure_file (join (path s) ''nosetsid''))) (\<lambda>u3.
     and_then (\<lambda>w. case fs_op (remove (join (path s) ''down'')) w of
                      (Inl (OSError ENOENT), w1) \<Rightarrow> (Inr (), w1)
                    | r \<Rightarrow> r) (\<lambda>u4.
     and_then (\<lambda>w. if exists (fs w) (ready_script s) then write_notification_fd s w
                    else (Inr (), w)) (\<lambda>u5.
     and_then (fs_op (ensuredirs (join (scratch_dir s) ''supervise''))) (\<lambda>u6.
       fs_op (ln_sfn (join (scratch_dir s) ''supervise'') (join (path s) ''supervise''))))))) w1
      = (Inr (), w')"
    unfolding ensure_directory_structure_def by (rule and_then_success)
  from s1 have d: "is_dir (fs w) (path s)" and w1: "w1 = w"
    by (auto simp: assert_exists_def split: if_splits)
  from r1 obtain u2 w2 where
    s2: "ensure_logs s w1 = (Inr u2, w2)" and
    r2: "and_then (fs_op (ensure_file (join (path s) ''nosetsid''))) (\<lambda>u3.
     and_then (\<lambda>w. case fs_op (remove (join (path s) ''down'')) w of
                      (Inl (OSError ENOENT), w1) \<Rightarrow> (Inr (), w1)
                    | r \<Rightarrow> r) (\<lambda>u4.
     and_then (\<lambda>w. if exists (fs w) (ready_script s) then write_notification_fd s w
                    else (Inr (), w)) (\<lambda>u5.
     and_then (fs_op (ensuredirs (join (scratch_dir s) ''supervise''))) (\<lambda>u6.
       fs_op (ln_sfn (join (scratch_dir s) ''supervise'') (join (path s) ''supervise'')))))) w2
      = (Inr (), w')"
    by (rule and_then_success)
  from s2 obtain f2 where f2: "ensure_file (join (path s) ''log'') (fs w) = Inr f2"
    and w2: "w2 = w\<lparr>fs := f2\<rparr>"
    unfolding ensure_logs_def w1 by (rule fs_op_success)
  from r2 obtain u3 w3 where
    s3: "fs_op (ensure_file (join (path s) ''nosetsid'')) w2 = (Inr u3, w3)" and
    r3: "and_then (\<lambda>w. case fs_op (remove (join (path s) ''down'')) w of
                      (Inl (OSError ENOENT), w1) \<Rightarrow> (Inr (), w1)
                    | r \<Rightarrow> r) (\<lambda>u4.
     and_then (\<lambda>w. if exists (fs w) (ready_script s) then write_notification_fd s w
                    else (Inr (), w)) (\<lambda>u5.
     and_then (fs_op (ensuredirs (join (scratch_dir s) ''supervise''))) (\<lambda>u6.
       fs_op (ln_sfn (join (scratch_dir s) ''supervise'') (join (path s) ''supervise''))))) w3
      = (Inr (), w')"
    by (rule and_then_success)
  from s3 obtain f3 where f3: "ensure_file (join (path s) ''nosetsid'') f2 = Inr f3"
    and w3: "w3 = w\<lparr>fs := f3\<rparr>"
    by (rule fs_op_success) (simp add: w2)
  from r3 obtain u4 w4 where
    s4: "(case fs_op (remove (join (path s) ''down'')) w3 of
            (Inl (OSError ENOENT), w1) \<Rightarrow> (Inr (), w1)
          | r \<Rightarrow> r) = (Inr u4, w4)" and
    r4: "and_then (\<lambda>w. if exists (fs w) (ready_script s) then write_notification_fd s w
                    else (Inr (), w)) (\<lambda>u5.
     and_then (fs_op (ensuredirs (join (scratch_dir s) ''supervise''))) (\<lambda>u6.
       fs_op (ln_sfn (join (scratch_dir s) ''supervise'') (join (path s) ''supervise'')))) w4
      = (Inr (), w')"
    by (rule and_then_success)
  obtain f4 where f4: "remove (join (path s) ''down'') f3 = Inr f4
         \<or> (remove (join (path s) ''down'') f3 = Inl (OSError ENOENT) \<and> f4 = f3)"
    and w4: "w4 = w\<lparr>fs := f4\<rparr>"
  proof (cases "remove (join (path s) ''down'') f3")
    case (Inl e)
    from remove_missing [OF Inl] have e: "e = OSError ENOENT" by simp
    with s4 Inl have "w4 = w\<lparr>fs := f3\<rparr>" by (simp add: fs_op_def w3)
    with Inl e that [of f3] show ?thesis by simp
  next
    case (Inr f4)
    with s4 have "w4 = w\<lparr>fs := f4\<rparr>" by (simp add: fs_op_def w3)
    with Inr that [of f4] show ?thesis by simp
  qed
  from r4 obtain u5 w5 where
    s5: "(if exists (fs w4) (ready_script s) then write_notification_fd s w4
          else (Inr (), w4)) = (Inr u5, w5)" and
    r5: "and_then (fs_op (ensuredirs (join (scratch_dir s) ''supervise''))) (\<lambda>u6.
       fs_op (ln_sfn (join (scratch_dir s) ''supervise'') (join (path s) ''supervise''))) w5
      = (Inr (), w')"
    by (rule and_then_success)
  obtain f5 where f5: "if exists f4 (ready_script s)
         then open_write (notification_fd s)
                (py_str (lowest_free (open_fds w)) @ [CHR 0x0A]) f4 = Inr f5
         else f5 = f4"
    and w5: "w5 = w\<lparr>fs := f5\<rparr>"
  proof (cases "exists f4 (ready_script s)")
    case True
    with s5 have "fs_op (open_write (notification_fd s)
        (py_str (lowest_free (open_fds w)) @ [CHR 0x0A])) w4 = (Inr u5, w5)"
      by (simp add: write_notification_fd_def w4)
    then obtain f5 where "open_write (notification_fd s)
        (py_str (lowest_free (open_fds w)) @ [CHR 0x0A]) f4 = Inr f5" and "w5 = w\<lparr>fs := f5\<rparr>"
      by (rule fs_op_success) (simp add: w4)
    with True that [of f5] show ?thesis by simp
  next
    case False
    with s5 have "w5 = w\<lparr>fs := f4\<rparr>" by (simp add: w4)
    with False that [of f4] show ?thesis by simp
  qed
  from r5 obtain u6 w6 where
    s6: "fs_op (ensuredirs (join (scratch_dir s) ''supervise'')) w5 = (Inr u6, w6)" and
    r6: "fs_op (ln_sfn (join (scratch_dir s) ''supervise'') (join (path s) ''supervise'')) w6
      = (Inr (), w')"
    by (rule and_then_success)
  from s6 obtain f6 where f6: "ensuredirs (join (scratch_dir s) ''supervise'') f5 = Inr f6"
    and w6: "w6 = w\<lparr>fs := f6\<rparr>"
    by (rule fs_op_success) (simp add: w5)
  from r6 obtain f7 where
    f7: "ln_sfn (join (scratch_dir s) ''supervise'') (join (path s) ''supervise'') f6 = Inr f7"
    and w7: "w' = w\<lparr>fs := f7\<rparr>"
    by (rule fs_op_success) (simp add: w6)
  have f7': "ln_sfn (join (scratch_dir s) ''supervise'') (join (path s) ''supervise'') f6
      = Inr (fs w')"
    using f7 w7 by simp
  have w'': "w' = w\<lparr>fs := fs w'\<rparr>" using w7 by simp
  show ?thesis by (rule that [OF d f2 f3 f4 f5 f6 f7' w''])
qed





text \<open>
  Why the scratch directory has to be outside: with the scratch directory at \<^verbatim>\<open>ready\<close>
  inside the service directory, the first run creates \<^verbatim>\<open>ready\<close> as a directory on its
  way to the scratch \<^verbatim>\<open>supervise\<close> directory, so the second run finds a \<^verbatim>\<open>ready\<close> entry
  and writes a \<^verbatim>\<open>notification-fd\<close> file that the first run did not leave.
\<close>

lemma ensure_directory_structure_nested_scratch_example:
  "fst (ensure_directory_structure nested_scratch_service example_world) = Inr ()
   \<and> fs (snd (ensure_directory_structure nested_scratch_service example_world))
        [''svc'', ''notification-fd''] = None
   \<and> fst (ensure_directory_structure nested_scratch_service
        (snd (ensure_directory_structure nested_scratch_service example_world))) = Inr ()
   \<and> fs (snd (ensure_directory_structure nested_scratch_service
        (snd (ensure_directory_structure nested_scratch_service example_world))))
        [''svc'', ''notification-fd''] = Some (File [CHR ''3'', CHR 0x0A])"
  by (simp add: model_defs nested_scratch_service_def py_str_def nat_digits.simps
      digit_char_def)

section \<open>Asserting that a service is stopped: the race\<close>

lemma ensure_directory_structure_keeps_service_dir:
  assumes run: "ensure_directory_structure s w = (Inr (), w')"
  shows "is_dir (fs w') (path s)"
proof -
  let ?P = "path s"
  let ?L = "join (path s) ''log''"
  let ?N = "join (path s) ''nosetsid''"
  let ?D = "join (path s) ''down''"
  let ?F = "notification_fd s"
  let ?T = "join (scratch_dir s) ''supervise''"
  let ?K = "join (path s) ''supervise''"
  let ?c = "py_str (lowest_free (open_fds w)) @ [CHR 0x0A]"
  from run obtain f2 f3 f4 f5 f6 where
    d0: "is_dir (fs w) ?P"
    and s2: "ensure_file ?L (fs w) = Inr f2"
    and s3: "ensure_file ?N f2 = Inr f3"
    and s4: "remove ?D f3 = Inr f4 \<or> (remove ?D f3 = Inl (OSError ENOENT) \<and> f4 = f3)"
    and s5: "if exists f4 (ready_script s) then open_write ?F ?c f4 = Inr f5 else f5 = f4"
    and s6: "ensuredirs ?T f5 = Inr f6"
    and s7: "ln_sfn ?T ?K f6 = Inr (fs w')"
    by (rule ensure_directory_structure_stages)
  from ln_sfn_success [OF s7] obtain dest where
    dest: "dest = ?K \<or> dest = join ?K (basename ?T)"
    and f7: "fs w' = f6(dest \<mapsto> Symlink (strpath ?T))"
    by blast
  have d2: "is_dir f2 ?P"
    using ensure_file_keeps [OF s2, of ?P] d0 by (simp add: is_dir_def)
  have d3: "is_dir f3 ?P"
    using ensure_file_keeps [OF s3, of ?P] d2 by (simp add: is_dir_def)
  have "\<not> is_prefix ?D ?P" by (auto simp: join_def dest: is_prefix_longer)
  then have d4: "is_dir f4 ?P"
    using s4 remove_success(2) [of ?D f3 f4 ?P] d3 by (auto simp: is_dir_def)
  have d5: "is_dir f5 ?P"
  proof (cases "exists f4 (ready_script s)")
    case True
    with s5 have "open_write ?F ?c f4 = Inr f5" by simp
    from open_write_success(1) [OF this] d4 show ?thesis
      by (simp add: is_dir_def notification_fd_def)
  next
    case False
    with s5 d4 show ?thesis by simp
  qed
  have d6: "is_dir f6 ?P" using ensuredirs_keeps_dir [OF s6 d5] .
  have "?P \<noteq> dest" using dest by (auto simp: join_def)
  with f7 d6 show ?thesis by (simp add: is_dir_def)
qed

lemma with_flock_free_ok:
  assumes env: "environ w PGCTL_SERVICE_LOCK = None \<or> environ w PGCTL_SERVICE_LOCK = Some []"
    and free: "\<not> busy s w"
    and ok: "fst (ensure_directory_structure s (acquired s w)) = Inr ()"
  shows "fst (with_flock s (\<lambda>lock. Pair (Inr ())) w) = Inr ()"
proof -
  let ?fd = "lowest_free (open_fds w)"
  obtain w2 where eds: "ensure_directory_structure s (acquired s w) = (Inr (), w2)"
    using ok by (cases "ensure_directory_structure s (acquired s w)") simp
  have w2: "w2 = (acquired s w)\<lparr>fs := fs w2\<rparr>"
    by (rule fs_actionD(2) [OF ensure_directory_structure_fs_action eds])
  have d: "is_dir (fs w2) (path s)"
    by (rule ensure_directory_structure_keeps_service_dir [OF eds])
  let ?sc = "Fresh (if is_dir (fs w2) (cwd w2) then Some (cwd w2) else None)"
  have enter: "flock_enter s w = (Inr (?fd, ?sc), w2\<lparr>cwd := path s\<rparr>)"
    using flock_enter_free [OF env free] eds d by (simp add: chdir_def Let_def)
  have "open_fds w2 = ?fd # open_fds w" by (subst w2) (simp add: acquired_def)
  then have "fst (flock_exit ?sc ?fd (Inr ()) (w2\<lparr>cwd := path s\<rparr>)) = Inr ()"
    by (intro flock_exit_ok) (auto split: if_splits)
  with enter show ?thesis by (simp add: with_flock_def del: flock_exit.simps)
qed

lemma assert_stopped_attempts_bound:
  "flock_attempts (snd (assert_stopped s w)) \<le> flock_attempts w + 10"
proof (cases "fst (svstat s w)")
  case (Inl e)
  then have "assert_stopped s w = (Inl e, snd (svstat s w))"
    by (cases "svstat s w") (simp add: assert_stopped_def)
  then show ?thesis by (simp add: svstat_frame)
next
  case (Inr status)
  show ?thesis
    using race_loop_general [of 10 s "snd (svstat s w)"]
    by (simp add: assert_stopped_after_status [OF Inr] svstat_frame)
qed

lemma assert_stopped_outcomes:
  assumes st: "fst (svstat s w) = Inr status" and un: "state status = UNSUPERVISED"
    and env: "environ w PGCTL_SERVICE_LOCK = None \<or> environ w PGCTL_SERVICE_LOCK = Some []"
  shows "((\<forall>j<10. held_elsewhere w (flock_attempts w + j) (strpath (path s))
              \<or> (\<exists>fd \<in> set (open_fds w). flocks w fd = Some (strpath (path s)))) \<longrightarrow>
           fst (assert_stopped s w) = Inl Impossible
           \<and> flock_attempts (snd (assert_stopped s w)) = flock_attempts w + 10)
      \<and> (\<forall>k<10.
           (\<forall>j<k. held_elsewhere w (flock_attempts w + j) (strpath (path s)))
           \<and> \<not> held_elsewhere w (flock_attempts w + k) (strpath (path s))
           \<and> (\<forall>fd \<in> set (open_fds w). flocks w fd \<noteq> Some (strpath (path s))) \<longrightarrow>
           flock_attempts (snd (assert_stopped s w)) = flock_attempts w + k + 1
           \<and> ((\<forall>w'. fs w' = fs w \<longrightarrow> fst (ensure_directory_structure s w') = Inr ()) \<longrightarrow>
                 fst (assert_stopped s w) = Inr ()))"
proof -

  let ?w1 = "snd (svstat s w)"
  let ?p = "strpath (path s)"
  have loop: "assert_stopped s w = race_loop 10 s ?w1"
    using un by (simp add: assert_stopped_after_status [OF st])
  have env1: "environ ?w1 PGCTL_SERVICE_LOCK = None \<or> environ ?w1 PGCTL_SERVICE_LOCK = Some []"
    using env by (simp add: svstat_frame)
  have a1: "flock_attempts ?w1 = flock_attempts w" by (simp add: svstat_frame)
  have all_busy: "fst (assert_stopped s w) = Inl Impossible
      \<and> flock_attempts (snd (assert_stopped s w)) = flock_attempts w + 10"
    if "\<forall>j<10. held_elsewhere w (flock_attempts w + j) ?p
          \<or> (\<exists>fd \<in> set (open_fds w). flocks w fd = Some ?p)"
  proof -
    from that have "\<forall>j<10. held_elsewhere ?w1 (flock_attempts ?w1 + j) ?p
        \<or> (\<exists>fd \<in> set (open_fds ?w1). flocks ?w1 fd = Some ?p)"
      by (simp add: svstat_frame)
    from race_loop_all_busy [OF env1 this] show ?thesis using loop a1 by simp
  qed
  have first_free: "flock_attempts (snd (assert_stopped s w)) = flock_attempts w + k + 1
      \<and> ((\<forall>w'. fs w' = fs w \<longrightarrow> fst (ensure_directory_structure s w') = Inr ()) \<longrightarrow>
            fst (assert_stopped s w) = Inr ())"
    if k: "k < 10" and held: "\<forall>j<k. held_elsewhere w (flock_attempts w + j) ?p"
      and free: "\<not> held_elsewhere w (flock_attempts w + k) ?p"
      and own: "\<forall>fd \<in> set (open_fds w). flocks w fd \<noteq> Some ?p" for k
  proof -
    have held1: "\<forall>j<k. held_elsewhere ?w1 (flock_attempts ?w1 + j) ?p"
      using held by (simp add: svstat_frame)
    have free1: "\<not> held_elsewhere ?w1 (flock_attempts ?w1 + k) ?p"
      using free by (simp add: svstat_frame)
    have own1: "\<forall>fd \<in> set (open_fds ?w1). flocks ?w1 fd \<noteq> Some ?p"
      using own by (simp add: svstat_frame)
    from race_loop_first_free [OF env1 held1 free1 own1 k] obtain w2 where
      eq: "race_loop 10 s ?w1 = with_flock s (\<lambda>lock. Pair (Inr ())) w2"
      and fs2: "fs w2 = fs ?w1" and nb: "\<not> busy s w2"
      and env2: "environ w2 PGCTL_SERVICE_LOCK = None \<or> environ w2 PGCTL_SERVICE_LOCK = Some []"
      and cnt: "flock_attempts (snd (race_loop 10 s ?w1)) = flock_attempts ?w1 + k + 1"
      by blast
    have "fst (assert_stopped s w) = Inr ()"
      if "\<forall>w'. fs w' = fs w \<longrightarrow> fst (ensure_directory_structure s w') = Inr ()"
    proof -
      have "fs (acquired s w2) = fs w"
        using fs2 by (simp add: acquired_def attempted_def popped_def svstat_frame)
      with that have "fst (ensure_directory_structure s (acquired s w2)) = Inr ()" by blast
      from with_flock_free_ok [OF env2 nb this] show ?thesis using loop eq by simp
    qed
    with cnt loop a1 show ?thesis by simp
  qed
  show ?thesis using all_busy first_free by blast
qed

text \<open>
  C4 as stated fails in its success case: with no lock held and status \<open>unsupervised\<close>,
  a service directory whose \<^verbatim>\<open>log\<close> entry is a directory makes \<^verbatim>\<open>assert_stopped\<close> fail.
  The first attempt acquires the lock, \<^verbatim>\<open>flock\<close> then runs
  \<^verbatim>\<open>ensure_directory_structure\<close>, whose \<^verbatim>\<open>ensure('log')\<close> opens the directory for writing,
  and the error leaves the loop.
\<close>

theorem assert_stopped_log_directory_counterexample:
  "fst (svstat example_service
      (example_world\<lparr>fs := (fs example_world)([''svc'', ''log''] \<mapsto> Dir)\<rparr>))
     = Inr (status_of ''unsupervised'' None None None)
   \<and> state (status_of ''unsupervised'' None None None) = UNSUPERVISED
   \<and> environ (example_world\<lparr>fs := (fs example_world)([''svc'', ''log''] \<mapsto> Dir)\<rparr>)
       PGCTL_SERVICE_LOCK = None
   \<and> \<not> busy example_service
       (example_world\<lparr>fs := (fs example_world)([''svc'', ''log''] \<mapsto> Dir)\<rparr>)
   \<and> fst (assert_stopped example_service
       (example_world\<lparr>fs := (fs example_world)([''svc'', ''log''] \<mapsto> Dir)\<rparr>))
     = Inl (OSError EISDIR)
   \<and> flock_attempts (snd (assert_stopped example_service
       (example_world\<lparr>fs := (fs example_world)([''svc'', ''log''] \<mapsto> Dir)\<rparr>))) = 1"
  by (simp add: race_defs model_defs busy_def)

text \<open>
  C4, amended. \<^verbatim>\<open>assert_stopped\<close> makes at most 10 lock acquisition attempts, whatever
  the state. When the observed status is \<open>unsupervised\<close> and no handle is inherited: if
  all 10 attempts find the lock held (by another process, or by this one through
  another descriptor), it raises \<^verbatim>\<open>Impossible\<close> after exactly 10 attempts; if the attempt number \<open>k + 1\<close> is the first to find the lock free,
  exactly \<open>k + 1\<close> attempts are made and no more, and the call succeeds provided the
  directory structure can be ensured on this file system. With \<open>k = 0\<close>: no lock held,
  status \<open>unsupervised\<close> and a directory structure that can be ensured succeed with a
  single attempt.
\<close>

theorem assert_stopped_race:
  "flock_attempts (snd (assert_stopped s w)) \<le> flock_attempts w + 10
   \<and> (fst (svstat s w) = Inr status \<and> state status = UNSUPERVISED
        \<and> (environ w PGCTL_SERVICE_LOCK = None \<or> environ w PGCTL_SERVICE_LOCK = Some []) \<longrightarrow>
      ((\<forall>j<10. held_elsewhere w (flock_attempts w + j) (strpath (path s))
              \<or> (\<exists>fd \<in> set (open_fds w). flocks w fd = Some (strpath (path s)))) \<longrightarrow>
           fst (assert_stopped s w) = Inl Impossible
           \<and> flock_attempts (snd (assert_stopped s w)) = flock_attempts w + 10)
      \<and> (\<forall>k<10.
           (\<forall>j<k. held_elsewhere w (flock_attempts w + j) (strpath (path s)))
           \<and> \<not> held_elsewhere w (flock_attempts w + k) (strpath (path s))
           \<and> (\<forall>fd \<in> set (open_fds w). flocks w fd \<noteq> Some (strpath (path s))) \<longrightarrow>
           flock_attempts (snd (assert_stopped s w)) = flock_attempts w + k + 1
           \<and> ((\<forall>w'. fs w' = fs w \<longrightarrow> fst (ensure_directory_structure s w') = Inr ()) \<longrightarrow>
                 fst (assert_stopped s w) = Inr ())))"
proof (rule conjI)
  show "flock_attempts (snd (assert_stopped s w)) \<le> flock_attempts w + 10"
    by (rule assert_stopped_attempts_bound)
next
  show "fst (svstat s w) = Inr status \<and> state status = UNSUPERVISED
        \<and> (environ w PGCTL_SERVICE_LOCK = None \<or> environ w PGCTL_SERVICE_LOCK = Some []) \<longrightarrow>
      ((\<forall>j<10. held_elsewhere w (flock_attempts w + j) (strpath (path s))
              \<or> (\<exists>fd \<in> set (open_fds w). flocks w fd = Some (strpath (path s)))) \<longrightarrow>
           fst (assert_stopped s w) = Inl Impossible
           \<and> flock_attempts (snd (assert_stopped s w)) = flock_attempts w + 10)
      \<and> (\<forall>k<10.
           (\<forall>j<k. held_elsewhere w (flock_attempts w + j) (strpath (path s)))
           \<and> \<not> held_elsewhere w (flock_attempts w + k) (strpath (path s))
           \<and> (\<forall>fd \<in> set (open_fds w). flocks w fd \<noteq> Some (strpath (path s))) \<longrightarrow>
           flock_attempts (snd (assert_stopped s w)) = flock_attempts w + k + 1
           \<and> ((\<forall>w'. fs w' = fs w \<longrightarrow> fst (ensure_directory_structure s w') = Inr ()) \<longrightarrow>
                 fst (assert_stopped s w) = Inr ()))"
  proof (rule impI)
    assume h: "fst (svstat s w) = Inr status \<and> state status = UNSUPERVISED
        \<and> (environ w PGCTL_SERVICE_LOCK = None \<or> environ w PGCTL_SERVICE_LOCK = Some [])"
    show "((\<forall>j<10. held_elsewhere w (flock_attempts w + j) (strpath (path s))
              \<or> (\<exists>fd \<in> set (open_fds w). flocks w fd = Some (strpath (path s)))) \<longrightarrow>
           fst (assert_stopped s w) = Inl Impossible
           \<and> flock_attempts (snd (assert_stopped s w)) = flock_attempts w + 10)
      \<and> (\<forall>k<10.
           (\<forall>j<k. held_elsewhere w (flock_attempts w + j) (strpath (path s)))
           \<and> \<not> held_elsewhere w (flock_attempts w + k) (strpath (path s))
           \<and> (\<forall>fd \<in> set (open_fds w). flocks w fd \<noteq> Some (strpath (path s))) \<longrightarrow>
           flock_attempts (snd (assert_stopped s w)) = flock_attempts w + k + 1
           \<and> ((\<forall>w'. fs w' = fs w \<longrightarrow> fst (ensure_directory_structure s w') = Inr ()) \<longrightarrow>
                 fst (assert_stopped s w) = Inr ()))"
      using h assert_stopped_outcomes [of s w status] by blast
  qed
qed

theorem assert_stopped_race_witness:
  "fst (svstat example_service example_world) = Inr (status_of ''unsupervised'' None None None)
   \<and> state (status_of ''unsupervised'' None None None) = UNSUPERVISED
   \<and> environ example_world PGCTL_SERVICE_LOCK = None
   \<and> \<not> held_elsewhere example_world 0 ''/svc''
   \<and> fst (assert_stopped example_service example_world) = Inr ()
   \<and> flock_attempts (snd (assert_stopped example_service example_world)) = 1
   \<and> fst (assert_stopped example_service (example_world\<lparr>held_elsewhere := (\<lambda>n p. n < 3)\<rparr>))
       = Inr ()
   \<and> flock_attempts (snd (assert_stopped example_service
        (example_world\<lparr>held_elsewhere := (\<lambda>n p. n < 3)\<rparr>))) = 4
   \<and> fst (assert_stopped example_service (example_world\<lparr>held_elsewhere := (\<lambda>n p. True)\<rparr>))
       = Inl Impossible
   \<and> flock_attempts (snd (assert_stopped example_service
        (example_world\<lparr>held_elsewhere := (\<lambda>n p. True)\<rparr>))) = 10"
proof -
  have ok: "\<forall>w'. fs w' = fs example_world \<longrightarrow>
      fst (ensure_directory_structure example_service w') = Inr ()"
    by (simp add: model_defs)
  have st: "fst (svstat example_service example_world)
      = Inr (status_of ''unsupervised'' None None None)"
    by (simp add: race_defs model_defs)
  have un: "state (status_of ''unsupervised'' None None None) = UNSUPERVISED"
    by (simp add: status_of_def UNSUPERVISED_def)
  have env: "environ example_world PGCTL_SERVICE_LOCK = None"
    by (simp add: example_world_def)
  have free: "\<not> held_elsewhere example_world 0 ''/svc''"
    by (simp add: example_world_def)
  have own: "\<forall>fd \<in> set (open_fds example_world). flocks example_world fd \<noteq> Some ''/svc''"
    by (simp add: example_world_def)
  from assert_stopped_race [of example_service example_world
      "status_of ''unsupervised'' None None None"] st un env
  have "\<forall>k<10.
      (\<forall>j<k. held_elsewhere example_world (flock_attempts example_world + j)
          (strpath (path example_service)))
      \<and> \<not> held_elsewhere example_world (flock_attempts example_world + k)
          (strpath (path example_service))
      \<and> (\<forall>fd \<in> set (open_fds example_world).
            flocks example_world fd \<noteq> Some (strpath (path example_service))) \<longrightarrow>
      flock_attempts (snd (assert_stopped example_service example_world))
        = flock_attempts example_world + k + 1
      \<and> ((\<forall>w'. fs w' = fs example_world \<longrightarrow>
             fst (ensure_directory_structure example_service w') = Inr ()) \<longrightarrow>
            fst (assert_stopped example_service example_world) = Inr ())"
    by blast
  from this [rule_format, of 0] free own ok
  have first: "fst (assert_stopped example_service example_world) = Inr ()
      \<and> flock_attempts (snd (assert_stopped example_service example_world)) = 1"
    by (simp add: example_world_def example_service_def)
  have rest: "fst (assert_stopped example_service
        (example_world\<lparr>held_elsewhere := (\<lambda>n p. n < 3)\<rparr>)) = Inr ()
   \<and> flock_attempts (snd (assert_stopped example_service
        (example_world\<lparr>held_elsewhere := (\<lambda>n p. n < 3)\<rparr>))) = 4
   \<and> fst (assert_stopped example_service (example_world\<lparr>held_elsewhere := (\<lambda>n p. True)\<rparr>))
       = Inl Impossible
   \<and> flock_attempts (snd (assert_stopped example_service
        (example_world\<lparr>held_elsewhere := (\<lambda>n p. True)\<rparr>))) = 10"
    by (simp add: race_defs model_defs)
  show ?thesis using st un env free first rest by simp
qed

end
